theory Spec2Isabelle
  imports Complex_Main "HOL-Library.Word" "HOL-Library.Log_Nat"
begin

section \<open>JavaScript values used by the program\<close>

text \<open>
  A JavaScript string is a sequence of code units. The model uses \<^typ>\<open>string\<close>, whose
  characters are the code units 0 to 255 (ASCII and Latin-1); titles, branch names and
  repository names with code units above 255 are outside the model.
\<close>

subsection \<open>Characters and strings\<close>

text \<open>
  \<^verbatim>\<open>toLowerCase\<close> maps A to Z and the Latin-1 capitals (192 to 222 except the
  multiplication sign 215) to the letter 32 above. The classes \<^verbatim>\<open>\w\<close> and
  \<^verbatim>\<open>\s\<close> of a regular expression without flags are \<^verbatim>\<open>[A-Za-z0-9_]\<close> and, below 256,
  tab, line feed, vertical tab, form feed, carriage return, space and no-break space.
\<close>

definition toLowerCase_char :: "char \<Rightarrow> char" where
  "toLowerCase_char c =
     (let n = (of_char c :: nat)
      in if (65 \<le> n \<and> n \<le> 90) \<or> (192 \<le> n \<and> n \<le> 222 \<and> n \<noteq> 215)
         then char_of (n + 32) else c)"

definition toLowerCase :: "string \<Rightarrow> string" where
  "toLowerCase s = map toLowerCase_char s"

definition isWordChar :: "char \<Rightarrow> bool" where
  "isWordChar c =
     (let n = (of_char c :: nat)
      in (48 \<le> n \<and> n \<le> 57) \<or> (65 \<le> n \<and> n \<le> 90) \<or> n = 95 \<or> (97 \<le> n \<and> n \<le> 122))"

definition isSpaceChar :: "char \<Rightarrow> bool" where
  "isSpaceChar c = (let n = (of_char c :: nat) in (9 \<le> n \<and> n \<le> 13) \<or> n = 32 \<or> n = 160)"

definition isDigitChar :: "char \<Rightarrow> bool" where
  "isDigitChar c = (let n = (of_char c :: nat) in 48 \<le> n \<and> n \<le> 57)"

definition digitValue :: "char \<Rightarrow> int" where
  "digitValue c = of_char c - 48"

text \<open>The value of a string of decimal digits, read from the left.\<close>

definition decimalValue :: "string \<Rightarrow> int" where
  "decimalValue ds = foldl (\<lambda>acc c. 10 * acc + digitValue c) 0 ds"

text \<open>
  \<^verbatim>\<open>s.split(/\s+/)\<close>: the fields between the maximal runs of white space. A run at
  the start or at the end of the string leaves an empty field there, and the empty string
  gives one empty field.
\<close>

function splitSpaces :: "string \<Rightarrow> string list" where
  "splitSpaces s =
     (let field = takeWhile (\<lambda>c. \<not> isSpaceChar c) s;
          rest = dropWhile (\<lambda>c. \<not> isSpaceChar c) s
      in if rest = [] then [field] else field # splitSpaces (dropWhile isSpaceChar rest))"
  by pat_completeness auto
termination
proof (relation "measure length")
  show "wf (measure length)" by simp
next
  fix s :: string and field rest
  assume r: "rest = dropWhile (\<lambda>c. \<not> isSpaceChar c) s" and ne: "rest \<noteq> []"
  have "length (dropWhile isSpaceChar rest) < length rest"
  proof (cases rest)
    case Nil
    with ne show ?thesis by simp
  next
    case (Cons x xs)
    have "isSpaceChar (hd rest)"
      using hd_dropWhile [of "\<lambda>c. \<not> isSpaceChar c" s] ne r by simp
    with Cons have "dropWhile isSpaceChar rest = dropWhile isSpaceChar xs" by simp
    moreover have "length (dropWhile isSpaceChar xs) \<le> length xs"
      by (rule length_dropWhile_le)
    ultimately show ?thesis using Cons by simp
  qed
  also have "length rest \<le> length s" using r by (simp add: length_dropWhile_le)
  finally show "(dropWhile isSpaceChar rest, s) \<in> measure length" by simp
qed

declare splitSpaces.simps [simp del]

subsection \<open>\<^verbatim>\<open>Set\<close> and \<^verbatim>\<open>Array.prototype.sort\<close>\<close>

text \<open>
  A \<^verbatim>\<open>Set\<close> keeps its elements in insertion order and ignores the insertion of an
  element it already has; spreading it into an array gives that order.
\<close>

definition Set_add :: "'a list \<Rightarrow> 'a \<Rightarrow> 'a list" where
  "Set_add s x = (if x \<in> set s then s else s @ [x])"

definition new_Set :: "'a list \<Rightarrow> 'a list" where
  "new_Set xs = foldl Set_add [] xs"

text \<open>
  \<^verbatim>\<open>xs.sort(cmp)\<close> is stable, and \<^verbatim>\<open>a\<close> stays before \<^verbatim>\<open>b\<close> unless
  \<^verbatim>\<open>cmp(a, b) > 0\<close>. For a consistent comparator every stable sort returns the list
  computed here.
\<close>

fun sort_insert :: "('a \<Rightarrow> 'a \<Rightarrow> int) \<Rightarrow> 'a \<Rightarrow> 'a list \<Rightarrow> 'a list" where
  "sort_insert cmp x [] = [x]"
| "sort_insert cmp x (y # ys) =
     (if cmp x y \<le> 0 then x # y # ys else y # sort_insert cmp x ys)"

definition js_sort :: "('a \<Rightarrow> 'a \<Rightarrow> int) \<Rightarrow> 'a list \<Rightarrow> 'a list" where
  "js_sort cmp xs = foldr (sort_insert cmp) xs []"

subsection \<open>Numbers\<close>

text \<open>
  A JavaScript number is an IEEE 754 double. A finite double is represented by the
  rational number it denotes, and every arithmetic operation rounds its exact result to
  the nearest double, ties to the even significand (\<open>fl\<close>). The numbers of this program
  are sizes and lengths below \<open>2 ^ 53\<close>, quotients of them, and their products and sums
  with the weights 0.6 and 0.4: the exponent range of a double is never reached, so
  \<open>fl\<close> has no exponent bound, and infinities and \<^verbatim>\<open>NaN\<close> do not arise: the two
  divisions of the program are reached with a divisor that is not 0 only.
\<close>

type_synonym number = rat

text \<open>The exponent \<open>e\<close> of a positive number \<open>x\<close>: \<open>2 powi e \<le> x < 2 powi (e + 1)\<close>.\<close>

definition exponentOf :: "rat \<Rightarrow> int" where
  "exponentOf x =
     (let (p, q) = quotient_of x;
          d = bitlen p - bitlen q
      in if 2 powi d \<le> x then d else d - 1)"

definition roundHalfEven :: "rat \<Rightarrow> int" where
  "roundHalfEven q =
     (let n = \<lfloor>q\<rfloor>;
          r = q - of_int n
      in if r < 1 / 2 then n
         else if 1 / 2 < r then n + 1
         else if even n then n else n + 1)"

text \<open>Rounding to 53 significant bits.\<close>

definition fl :: "rat \<Rightarrow> number" where
  "fl x =
     (if x = 0 then 0
      else (let a = \<bar>x\<bar>;
                e = exponentOf a;
                ulp = 2 powi (e - 52);
                n = roundHalfEven (a / ulp)
            in sgn x * of_int n * ulp))"

definition num_add :: "number \<Rightarrow> number \<Rightarrow> number" where
  "num_add x y = fl (x + y)"

definition num_sub :: "number \<Rightarrow> number \<Rightarrow> number" where
  "num_sub x y = fl (x - y)"

definition num_mul :: "number \<Rightarrow> number \<Rightarrow> number" where
  "num_mul x y = fl (x * y)"

definition num_div :: "number \<Rightarrow> number \<Rightarrow> number" where
  "num_div x y = fl (x / y)"

subsection \<open>\<^verbatim>\<open>Date\<close>\<close>

text \<open>
  \<^verbatim>\<open>new Date(s)\<close> is a time value in milliseconds since the epoch, or the invalid date
  (\<^verbatim>\<open>NaN\<close>, here \<^const>\<open>None\<close>). The parser of the host is a parameter
  \<open>dateParse\<close> of every function that builds a date from a string. A relational
  comparison with an invalid date is false.
\<close>

type_synonym date_parser = "string \<Rightarrow> int option"

definition dateLess :: "date_parser \<Rightarrow> string \<Rightarrow> string \<Rightarrow> bool" where
  "dateLess dateParse a b =
     (case dateParse a of None \<Rightarrow> False
      | Some x \<Rightarrow> (case dateParse b of None \<Rightarrow> False | Some y \<Rightarrow> x < y))"

definition dateLessEq :: "int option \<Rightarrow> int option \<Rightarrow> bool" where
  "dateLessEq a b =
     (case a of None \<Rightarrow> False
      | Some x \<Rightarrow> (case b of None \<Rightarrow> False | Some y \<Rightarrow> x \<le> y))"

text \<open>
  \<^verbatim>\<open>d.setHours(h, m, s, ms)\<close> replaces the time within the local day of \<^verbatim>\<open>d\<close>.
  The host's time zone is a fixed offset \<open>tza\<close> from UTC in milliseconds (local time is
  UTC plus \<open>tza\<close>); zones that change their offset are outside the model. An invalid
  date stays invalid.
\<close>

definition msPerDay :: int where
  "msPerDay = 86400000"

definition setHours :: "int \<Rightarrow> int option \<Rightarrow> int \<Rightarrow> int \<Rightarrow> int \<Rightarrow> int \<Rightarrow> int option" where
  "setHours tza d h m s ms =
     (case d of None \<Rightarrow> None
      | Some t \<Rightarrow>
          Some (((t + tza) div msPerDay) * msPerDay
                + (h * 3600000 + m * 60000 + s * 1000 + ms) - tza))"

text \<open>
  The ISO 8601 shapes the program meets, as ECMAScript reads them: the calendar date
  \<^verbatim>\<open>YYYY-MM-DD\<close> that the command line accepts is midnight UTC of that day, and
  \<^verbatim>\<open>YYYY-MM-DDTHH:MM:SSZ\<close>, the shape of the timestamps of the remote API, is that time
  in UTC. \<open>isoDateParse\<close> is the instance of the parser used to evaluate the functions
  on concrete strings; it reads these two shapes only.
\<close>

definition daysFromCivil :: "int \<Rightarrow> int \<Rightarrow> int \<Rightarrow> int" where
  "daysFromCivil y m d =
     (let y' = (if m \<le> 2 then y - 1 else y);
          era = y' div 400;
          yoe = y' - era * 400;
          doy = (153 * (if m > 2 then m - 3 else m + 9) + 2) div 5 + d - 1;
          doe = yoe * 365 + yoe div 4 - yoe div 100 + doy
      in era * 146097 + doe - 719468)"

definition daysInMonth :: "int \<Rightarrow> int \<Rightarrow> int" where
  "daysInMonth y m =
     (if m = 2 then (if y mod 4 = 0 \<and> (y mod 100 \<noteq> 0 \<or> y mod 400 = 0) then 29 else 28)
      else if m = 4 \<or> m = 6 \<or> m = 9 \<or> m = 11 then 30 else 31)"

definition isoCalendarDate :: "string \<Rightarrow> int option" where
  "isoCalendarDate s =
     (if length s = 10 \<and> list_all isDigitChar (take 4 s) \<and> s ! 4 = CHR ''-''
         \<and> list_all isDigitChar (take 2 (drop 5 s)) \<and> s ! 7 = CHR ''-''
         \<and> list_all isDigitChar (drop 8 s)
      then (let y = (decimalValue (take 4 s));
                m = (decimalValue (take 2 (drop 5 s)));
                d = (decimalValue (drop 8 s))
            in if 1 \<le> m \<and> m \<le> 12 \<and> 1 \<le> d \<and> d \<le> daysInMonth y m
               then Some (daysFromCivil y m d * msPerDay) else None)
      else None)"

definition isoTimeOfDay :: "string \<Rightarrow> int option" where
  "isoTimeOfDay s =
     (if length s = 8 \<and> list_all isDigitChar (take 2 s) \<and> s ! 2 = CHR '':''
         \<and> list_all isDigitChar (take 2 (drop 3 s)) \<and> s ! 5 = CHR '':''
         \<and> list_all isDigitChar (drop 6 s)
      then (let h = (decimalValue (take 2 s));
                m = (decimalValue (take 2 (drop 3 s)));
                sec = (decimalValue (drop 6 s))
            in if h \<le> 23 \<and> m \<le> 59 \<and> sec \<le> 59
               then Some (h * 3600000 + m * 60000 + sec * 1000) else None)
      else None)"

definition isoDateParse :: date_parser where
  "isoDateParse s =
     (if length s = 10 then isoCalendarDate s
      else if length s = 20 \<and> s ! 10 = CHR ''T'' \<and> s ! 19 = CHR ''Z''
      then (case isoCalendarDate (take 10 s) of None \<Rightarrow> None
            | Some day \<Rightarrow>
                (case isoTimeOfDay (take 8 (drop 11 s)) of None \<Rightarrow> None
                 | Some t \<Rightarrow> Some (day + t)))
      else None)"

subsection \<open>\<^verbatim>\<open>String.prototype.startsWith\<close>\<close>

definition startsWith :: "string \<Rightarrow> string \<Rightarrow> bool" where
  "startsWith s p = (take (length p) s = p)"

section \<open>\<^verbatim>\<open>src/github/client.ts\<close>: the branch policy\<close>

text \<open>
  \<^verbatim>\<open>
  function isAllowedBaseBranch(branch: string): boolean {
    if (branch === 'main' || branch === 'master') { return true; }
    if (branch.startsWith('release/')) { return true; }
    return false;
  }
  \<close>
  The function is declared twice with the same body (in \<^verbatim>\<open>src/github/client.ts\<close>
  and in the later revision of the client); it reads its argument only.
\<close>

definition isAllowedBaseBranch :: "string \<Rightarrow> bool" where
  "isAllowedBaseBranch branch =
     (if branch = ''main'' \<or> branch = ''master'' then True
      else if startsWith branch ''release/'' then True
      else False)"

section \<open>\<^verbatim>\<open>src/domain/models.ts\<close>\<close>

record pullRequest =
  number :: int
  title :: string
  body :: "string option"
  url :: string
  repoName :: string
  repoFullName :: string
  baseBranch :: string
  createdAt :: string
  mergedAt :: string

datatype featureType = Feature | Enhancement | Bugfix | Infra | Refactor

datatype confidenceLevel = High | Medium | Low

record feature =
  project :: string
  title :: string
  description :: string
  type :: featureType
  prs :: "int list"
  startDate :: string
  endDate :: string
  confidence :: confidenceLevel

section \<open>\<^verbatim>\<open>src/domain/grouping.ts\<close>\<close>

text \<open>
  The similarity scores are numbers: the literals \<^verbatim>\<open>0.6\<close> and \<^verbatim>\<open>0.4\<close> are the
  doubles nearest to them, and each division, multiplication, subtraction and addition
  rounds.
\<close>

subsection \<open>\<^verbatim>\<open>calculateSimilarity\<close>\<close>

definition normalize_str :: "string \<Rightarrow> string list" where
  "normalize_str s =
     filter (\<lambda>word. length word > 2)
       (splitSpaces
          (map (\<lambda>c. if \<not> isWordChar c \<and> \<not> isSpaceChar c then CHR '' '' else c)
             (toLowerCase s)))"

definition calculateSimilarity :: "string \<Rightarrow> string \<Rightarrow> number" where
  "calculateSimilarity str1 str2 =
     (let tokens1 = new_Set (normalize_str str1);
          tokens2 = new_Set (normalize_str str2)
      in if length tokens1 = 0 \<or> length tokens2 = 0 then 0
         else (let intersection = new_Set (filter (\<lambda>x. x \<in> set tokens2) tokens1);
                   union = new_Set (tokens1 @ tokens2)
               in num_div (of_nat (length intersection)) (of_nat (length union))))"

subsection \<open>\<^verbatim>\<open>levenshteinDistance\<close>\<close>

text \<open>
  The matrix \<^verbatim>\<open>dp\<close> has \<open>m + 1\<close> rows of \<open>n + 1\<close> entries, and the loops read and
  write inside these bounds only.
\<close>

definition dp_set :: "nat list list \<Rightarrow> nat \<Rightarrow> nat \<Rightarrow> nat \<Rightarrow> nat list list" where
  "dp_set dp i j v = dp[i := (dp ! i)[j := v]]"

definition dp_cell :: "string \<Rightarrow> string \<Rightarrow> nat list list \<Rightarrow> nat \<Rightarrow> nat \<Rightarrow> nat" where
  "dp_cell str1 str2 dp i j =
     (let cost = (if str1 ! (i - 1) = str2 ! (j - 1) then 0 else 1)
      in min (min (dp ! (i - 1) ! j + 1) (dp ! i ! (j - 1) + 1)) (dp ! (i - 1) ! (j - 1) + cost))"

definition levenshteinDistance :: "string \<Rightarrow> string \<Rightarrow> nat" where
  "levenshteinDistance str1 str2 =
     (let m = length str1;
          n = length str2;
          dp0 = replicate (m + 1) (replicate (n + 1) 0);
          dp1 = foldl (\<lambda>dp i. dp_set dp i 0 i) dp0 [0..<m + 1];
          dp2 = foldl (\<lambda>dp j. dp_set dp 0 j j) dp1 [0..<n + 1];
          dp3 = foldl (\<lambda>dp i.
                   foldl (\<lambda>dp j. dp_set dp i j (dp_cell str1 str2 dp i j)) dp [1..<n + 1])
                  dp2 [1..<m + 1]
      in dp3 ! m ! n)"

definition dp_shape :: "nat \<Rightarrow> nat \<Rightarrow> nat list list \<Rightarrow> bool" where
  "dp_shape m n dp \<longleftrightarrow> length dp = m + 1 \<and> (\<forall>i \<le> m. length (dp ! i) = n + 1)"

definition levenshteinSimilarity :: "string \<Rightarrow> string \<Rightarrow> number" where
  "levenshteinSimilarity str1 str2 =
     (let maxLen = max (length str1) (length str2)
      in if maxLen = 0 then 1
         else (let distance = levenshteinDistance (toLowerCase str1) (toLowerCase str2)
               in num_sub 1 (num_div (of_nat distance) (of_nat maxLen))))"

subsection \<open>\<^verbatim>\<open>featureSimilarity\<close> and \<^verbatim>\<open>mergeFeatures\<close>\<close>

definition featureSimilarity :: "feature \<Rightarrow> feature \<Rightarrow> number" where
  "featureSimilarity f1 f2 =
     (if project f1 \<noteq> project f2 then 0
      else if type f1 \<noteq> type f2 then 0
      else (let tokenSim = calculateSimilarity (title f1) (title f2);
                levenSim = levenshteinSimilarity (title f1) (title f2)
            in num_add (num_mul tokenSim (fl 0.6)) (num_mul levenSim (fl 0.4))))"

definition mergeFeatures :: "date_parser \<Rightarrow> feature \<Rightarrow> feature \<Rightarrow> feature" where
  "mergeFeatures dateParse f1 f2 =
     (let base = (if confidence f1 = High \<or> confidence f2 = Low then f1 else f2);
          allPRs = js_sort (\<lambda>a b. a - b) (new_Set (prs f1 @ prs f2));
          startDate' = (if dateLess dateParse (startDate f1) (startDate f2)
                        then startDate f1 else startDate f2);
          endDate' = (if dateLess dateParse (endDate f2) (endDate f1)
                      then endDate f1 else endDate f2);
          confidence' = (if confidence f1 \<noteq> confidence f2 then Medium else confidence base)
      in \<lparr>project = project base, title = title base, description = description base,
          type = type base, prs = allPRs, startDate = startDate', endDate = endDate',
          confidence = confidence'\<rparr>)"

subsection \<open>\<^verbatim>\<open>mergeSimilarFeatures\<close>\<close>

text \<open>
  The inner loop walks \<^verbatim>\<open>remaining\<close> with the index \<^verbatim>\<open>i\<close>: a candidate that is
  similar enough is merged into \<^verbatim>\<open>current\<close> and spliced out (the index stays), any
  other candidate is kept (the index moves on). It returns the pivot and what remains.
\<close>

fun scanRemaining :: "date_parser \<Rightarrow> number \<Rightarrow> feature \<Rightarrow> feature list \<Rightarrow> feature \<times> feature list" where
  "scanRemaining dateParse similarityThreshold current [] = (current, [])"
| "scanRemaining dateParse similarityThreshold current (candidate # rest) =
     (if featureSimilarity current candidate \<ge> similarityThreshold
      then scanRemaining dateParse similarityThreshold
             (mergeFeatures dateParse current candidate) rest
      else (let (current', remaining') =
                  scanRemaining dateParse similarityThreshold current rest
            in (current', candidate # remaining')))"

function mergeLoop :: "date_parser \<Rightarrow> number \<Rightarrow> feature list \<Rightarrow> feature list" where
  "mergeLoop dateParse similarityThreshold [] = []"
| "mergeLoop dateParse similarityThreshold (first # remaining) =
     (let (current, remaining') = scanRemaining dateParse similarityThreshold first remaining
      in current # mergeLoop dateParse similarityThreshold remaining')"
  by pat_completeness auto
termination
proof (relation "measure (\<lambda>(dateParse, similarityThreshold, remaining). length remaining)")
  show "wf (measure (\<lambda>(dateParse, similarityThreshold, remaining). length remaining))"
    by simp
next
  fix dateParse :: date_parser and similarityThreshold :: rat
    and first :: feature and remaining :: "feature list" and x current remaining'
  assume x: "x = scanRemaining dateParse similarityThreshold first remaining"
    and "(current, remaining') = x"
  have len: "length (snd (scanRemaining dateParse similarityThreshold c fs)) \<le> length fs"
    for c fs
  proof (induction fs arbitrary: c)
    case Nil
    show ?case by simp
  next
    case (Cons a fs)
    show ?case
    proof (cases "featureSimilarity c a \<ge> similarityThreshold")
      case True
      with Cons [of "mergeFeatures dateParse c a"] show ?thesis by simp
    next
      case False
      with Cons [of c] show ?thesis by (simp add: case_prod_beta)
    qed
  qed
  from x \<open>(current, remaining') = x\<close> have "remaining' = snd
    (scanRemaining dateParse similarityThreshold first remaining)"
    by (metis snd_conv)
  with len [of first remaining]
  show "((dateParse, similarityThreshold, remaining'),
         (dateParse, similarityThreshold, first # remaining))
        \<in> measure (\<lambda>(dateParse, similarityThreshold, remaining). length remaining)"
    by simp
qed

definition mergeSimilarFeatures :: "date_parser \<Rightarrow> feature list \<Rightarrow> number \<Rightarrow> feature list" where
  "mergeSimilarFeatures dateParse features similarityThreshold =
     (if length features \<le> 1 then features
      else mergeLoop dateParse similarityThreshold features)"

definition defaultSimilarityThreshold :: number where
  "defaultSimilarityThreshold = 0.5"

section \<open>The client of the remote API\<close>

text \<open>
  The functions of this section are those of the latest revision of the client, the one
  with the cache, the repository filters and the retry on throttled responses.
\<close>

subsection \<open>\<^verbatim>\<open>isDateInRange\<close>\<close>

text \<open>
  \<^verbatim>\<open>
  function isDateInRange(dateStr: string, since: string, until: string): boolean {
    const date = new Date(dateStr);
    const sinceDate = new Date(since);
    const untilDate = new Date(until);
    untilDate.setHours(23, 59, 59, 999);
    return date >= sinceDate && date <= untilDate;
  }
  \<close>
\<close>

definition isDateInRange :: "date_parser \<Rightarrow> int \<Rightarrow> string \<Rightarrow> string \<Rightarrow> string \<Rightarrow> bool" where
  "isDateInRange dateParse tza dateStr since until =
     (let date = dateParse dateStr;
          sinceDate = dateParse since;
          untilDate = setHours tza (dateParse until) 23 59 59 999
      in dateLessEq sinceDate date \<and> dateLessEq date untilDate)"

subsection \<open>Options and the repository filters\<close>

datatype repoScope = All | Personal | Orgs

text \<open>An optional field of \<^verbatim>\<open>GitHubClientOptions\<close> that is not set is \<^const>\<open>None\<close>.\<close>

record gitHubClientOptions =
  cache :: "bool option"
  scope :: "repoScope option"
  repos :: "string list option"
  orgs :: "string list option"
  excludeRepos :: "string list option"
  skipOrgScan :: "bool option"
  verbose :: "bool option"

text \<open>
  \<^verbatim>\<open>s.split('/')[0]\<close> is the part of \<^verbatim>\<open>s\<close> before its first slash, and all of
  \<^verbatim>\<open>s\<close> when it has none.
\<close>

definition ownerPart :: "string \<Rightarrow> string" where
  "ownerPart fullName = takeWhile (\<lambda>c. c \<noteq> CHR ''/'') fullName"

definition isOrgRepo :: "string \<Rightarrow> string \<Rightarrow> bool" where
  "isOrgRepo fullName username =
     (let owner = toLowerCase (ownerPart fullName)
      in owner \<noteq> toLowerCase username)"

text \<open>\<^verbatim>\<open>xs?.includes(x)\<close> is false when \<^verbatim>\<open>xs\<close> is not set.\<close>

definition includes_opt :: "'a list option \<Rightarrow> 'a \<Rightarrow> bool" where
  "includes_opt xs x = (case xs of None \<Rightarrow> False | Some ys \<Rightarrow> x \<in> set ys)"

text \<open>\<^verbatim>\<open>xs && xs.length > 0\<close>\<close>

definition nonEmpty_opt :: "'a list option \<Rightarrow> bool" where
  "nonEmpty_opt xs = (case xs of None \<Rightarrow> False | Some ys \<Rightarrow> length ys > 0)"

definition shouldIncludeRepo :: "gitHubClientOptions \<Rightarrow> string \<Rightarrow> string \<Rightarrow> bool" where
  "shouldIncludeRepo options fullName username =
     (if includes_opt (excludeRepos options) fullName then False
      else if scope options = Some Personal \<and> isOrgRepo fullName username then False
      else if scope options \<noteq> Some Personal \<and> scope options = Some Orgs
              \<and> \<not> isOrgRepo fullName username then False
      else if nonEmpty_opt (repos options) then includes_opt (repos options) fullName
      else if nonEmpty_opt (orgs options) then
        (let repoOrg = ownerPart fullName
         in if repoOrg \<noteq> [] then includes_opt (orgs options) repoOrg else False)
      else True)"

subsection \<open>The three ways to find pull requests and \<^verbatim>\<open>fetchAllMergedPRs\<close>\<close>

text \<open>
  The scan of one repository goes to the network. Its outcome for each repository is the
  parameter \<open>listMergedPRs\<close>: the pull requests found, or \<^const>\<open>None\<close> when the call
  throws. The pull requests returned by the global search and by the sweep of the
  organizations are parameters of \<open>fetchAllMergedPRs\<close> in the same way.
\<close>

text \<open>
  \<^verbatim>\<open>fetchPRsViaGlobalSearch\<close> ends, on both of its paths, by filtering pull requests
  with \<^verbatim>\<open>shouldIncludeRepo\<close>: those read from the cache, or those built from the
  answers of the search. These pull requests are the parameter \<open>found\<close>.
\<close>

definition fetchPRsViaGlobalSearch ::
  "gitHubClientOptions \<Rightarrow> string \<Rightarrow> pullRequest list \<Rightarrow> pullRequest list" where
  "fetchPRsViaGlobalSearch options username found =
     filter (\<lambda>pr. shouldIncludeRepo options (repoFullName pr) username) found"

text \<open>
  In \<^verbatim>\<open>fetchPRsFromOrgRepos\<close> the organizations of the user and the repositories of
  an organization come from the network; \<^verbatim>\<open>listUserOrganizations\<close> and
  \<^verbatim>\<open>listOrgRepositories\<close> catch every error and return what they have, so they are the
  logins and the full names they return. The last parameter is the set of repositories
  to pass over, which the code names \<^verbatim>\<open>excludeRepos\<close> as well.
\<close>

definition fetchPRsFromOrgRepos ::
  "gitHubClientOptions \<Rightarrow> string \<Rightarrow> (string \<Rightarrow> pullRequest list option) \<Rightarrow> string list
    \<Rightarrow> (string \<Rightarrow> string list) \<Rightarrow> string list \<Rightarrow> pullRequest list" where
  "fetchPRsFromOrgRepos options username listMergedPRs listUserOrganizations
     listOrgRepositories excludeSet =
     (if scope options = Some Personal then []
      else if nonEmpty_opt (repos options) then []
      else (let orgsToCheck =
                  (case orgs options of
                     None \<Rightarrow> listUserOrganizations
                   | Some logins \<Rightarrow> if length logins > 0 then logins else listUserOrganizations)
            in if length orgsToCheck = 0 then []
               else foldl (\<lambda>allPRs org.
                      (let orgRepos = listOrgRepositories org;
                           uncheckedRepos =
                             filter (\<lambda>r. r \<notin> set excludeSet
                                        \<and> shouldIncludeRepo options r username) orgRepos
                       in if length uncheckedRepos = 0 then allPRs
                          else foldl (\<lambda>allPRs fullName.
                                 case listMergedPRs fullName of
                                   None \<Rightarrow> allPRs
                                 | Some found \<Rightarrow>
                                     if length found > 0 then allPRs @ found else allPRs)
                               allPRs uncheckedRepos))
                    [] orgsToCheck))"

definition fetchPRsFromSpecificRepos ::
  "gitHubClientOptions \<Rightarrow> (string \<Rightarrow> pullRequest list option) \<Rightarrow> pullRequest list" where
  "fetchPRsFromSpecificRepos options listMergedPRs =
     (case repos options of None \<Rightarrow> []
      | Some rs \<Rightarrow>
          if length rs = 0 then []
          else foldl (\<lambda>allPRs fullName.
                 if includes_opt (excludeRepos options) fullName then allPRs
                 else (case listMergedPRs fullName of
                         None \<Rightarrow> allPRs
                       | Some found \<Rightarrow> if length found > 0 then allPRs @ found else allPRs))
               [] rs)"

text \<open>\<^verbatim>\<open>String(n)\<close> for an integer \<^verbatim>\<open>n\<close>: its decimal digits, after a minus sign when negative.\<close>

definition digitChar :: "nat \<Rightarrow> char" where
  "digitChar d = char_of (48 + d)"

fun natToString :: "nat \<Rightarrow> string" where
  "natToString n = (if n < 10 then [digitChar n] else natToString (n div 10) @ [digitChar (n mod 10)])"

declare natToString.simps [simp del]

definition numberToString :: "int \<Rightarrow> string" where
  "numberToString i = (if i < 0 then CHR ''-'' # natToString (nat (- i)) else natToString (nat i))"

definition prKey :: "pullRequest \<Rightarrow> string" where
  "prKey pr = repoFullName pr @ ''#'' @ numberToString (number pr)"

text \<open>
  A \<^verbatim>\<open>Map\<close> is the list of its entries in insertion order; \<^verbatim>\<open>set\<close> on a key it has
  replaces the value in place.
\<close>

definition Map_has :: "('k \<times> 'v) list \<Rightarrow> 'k \<Rightarrow> bool" where
  "Map_has m k = (k \<in> fst ` set m)"

definition Map_set :: "('k \<times> 'v) list \<Rightarrow> 'k \<Rightarrow> 'v \<Rightarrow> ('k \<times> 'v) list" where
  "Map_set m k v =
     (if Map_has m k then map (\<lambda>(k', v'). if k' = k then (k', v) else (k', v')) m
      else m @ [(k, v)])"

definition Map_values :: "('k \<times> 'v) list \<Rightarrow> 'v list" where
  "Map_values m = map snd m"

definition uniquePRs_step :: "(string \<times> pullRequest) list \<Rightarrow> pullRequest \<Rightarrow> (string \<times> pullRequest) list" where
  "uniquePRs_step m pr =
     (let key = prKey pr in if \<not> Map_has m key then Map_set m key pr else m)"

definition uniquePRs :: "pullRequest list \<Rightarrow> (string \<times> pullRequest) list" where
  "uniquePRs allPRs = foldl uniquePRs_step [] allPRs"

text \<open>
  The comparator of the final sort subtracts the two merge times; a difference with an
  invalid date is \<^verbatim>\<open>NaN\<close>, which the sort reads as 0.
\<close>

definition mergedAtCompare :: "date_parser \<Rightarrow> pullRequest \<Rightarrow> pullRequest \<Rightarrow> int" where
  "mergedAtCompare dateParse a b =
     (case dateParse (mergedAt a) of None \<Rightarrow> 0
      | Some x \<Rightarrow> (case dateParse (mergedAt b) of None \<Rightarrow> 0 | Some y \<Rightarrow> x - y))"

definition dedupAndSort :: "date_parser \<Rightarrow> pullRequest list \<Rightarrow> pullRequest list" where
  "dedupAndSort dateParse allPRs =
     js_sort (mergedAtCompare dateParse) (Map_values (uniquePRs allPRs))"

definition fetchAllMergedPRs ::
  "date_parser \<Rightarrow> gitHubClientOptions \<Rightarrow> (string \<Rightarrow> pullRequest list option)
    \<Rightarrow> pullRequest list \<Rightarrow> pullRequest list \<Rightarrow> pullRequest list" where
  "fetchAllMergedPRs dateParse options listMergedPRs searchPRs orgPRs =
     (let allPRs =
        (if nonEmpty_opt (repos options) then fetchPRsFromSpecificRepos options listMergedPRs
         else if skipOrgScan options \<noteq> Some True then searchPRs @ orgPRs
         else searchPRs)
      in dedupAndSort dateParse allPRs)"

subsection \<open>\<^verbatim>\<open>GitHubClient.request\<close>\<close>

text \<open>
  A response of \<^verbatim>\<open>fetch\<close>: its status, its headers, the \<^verbatim>\<open>message\<close> of its JSON body
  when the body is an error object that has one, and the JSON body as the payload.
\<close>

record 'a response =
  status :: nat
  statusText :: string
  headers :: "string \<Rightarrow> string option"
  errorMessage :: "string option"
  payload :: 'a

text \<open>\<^verbatim>\<open>new GitHubClientError(message, statusCode, endpoint)\<close>\<close>

datatype gitHubClientError = GitHubClientError string nat string

datatype 'a outcome = Returned 'a | Thrown gitHubClientError

text \<open>
  What the client does on the way: the requests it sends and the waits of the reactive
  backoff, in order. The pacing of \<^verbatim>\<open>rateLimit()\<close> before each request is a separate
  throttle and is not part of this trace. A wait of \<^const>\<open>None\<close> is
  \<^verbatim>\<open>sleep(NaN)\<close>.
\<close>

datatype event = Fetch string | Sleep "int option"

definition GITHUB_API_BASE :: string where
  "GITHUB_API_BASE = ''https://api.github.com''"

text \<open>
  \<^verbatim>\<open>parseInt(s, 10)\<close>: leading white space is skipped, a sign is read, and the longest
  run of decimal digits that follows is the value; without a digit the result is
  \<^verbatim>\<open>NaN\<close>.
\<close>

definition parseInt10 :: "string \<Rightarrow> int option" where
  "parseInt10 s =
     (let s1 = dropWhile isSpaceChar s;
          negative = (s1 \<noteq> [] \<and> hd s1 = CHR ''-'');
          s2 = (if s1 \<noteq> [] \<and> (hd s1 = CHR ''-'' \<or> hd s1 = CHR ''+'') then tl s1 else s1);
          ds = takeWhile isDigitChar s2
      in if ds = [] then None
         else Some ((if negative then - 1 else 1) * (decimalValue ds)))"

text \<open>
  \<^verbatim>\<open>
  let waitTime = 60000;
  if (rateLimitReset) {
    const resetTime = parseInt(rateLimitReset, 10) * 1000;
    waitTime = Math.max(resetTime - Date.now() + 1000, 1000);
    waitTime = Math.min(waitTime, 300000);
  }
  \<close>
  A header that is absent or empty is falsy; \<^verbatim>\<open>Math.max\<close> and \<^verbatim>\<open>Math.min\<close> of
  \<^verbatim>\<open>NaN\<close> are \<^verbatim>\<open>NaN\<close>.
\<close>

definition rateLimitWaitTime :: "string option \<Rightarrow> int \<Rightarrow> int option" where
  "rateLimitWaitTime rateLimitReset now =
     (case rateLimitReset of
        None \<Rightarrow> Some 60000
      | Some h \<Rightarrow>
          if h = [] then Some 60000
          else (case parseInt10 h of
                  None \<Rightarrow> None
                | Some seconds \<Rightarrow>
                    (let resetTime = seconds * 1000;
                         waitTime = max (resetTime - now + 1000) 1000
                     in Some (min waitTime 300000))))"

definition isRateLimited :: "'a response \<Rightarrow> bool" where
  "isRateLimited response =
     ((status response = 403 \<or> status response = 429)
      \<and> (headers response ''X-RateLimit-Remaining'' = Some ''0'' \<or> status response = 429))"

text \<open>
  The answers of the server and the readings of the clock are parameters: \<open>server n\<close>
  is the response to the request sent with \<^verbatim>\<open>retryCount = n\<close>, and \<open>clock n\<close> is
  \<^verbatim>\<open>Date.now()\<close> when the wait after that response is computed. The result is the
  trace with the outcome: the data with the \<^verbatim>\<open>Link\<close> header, or the error thrown.
\<close>

function request ::
  "(nat \<Rightarrow> 'a response) \<Rightarrow> (nat \<Rightarrow> int) \<Rightarrow> string \<Rightarrow> nat
    \<Rightarrow> event list \<times> ('a \<times> string option) outcome" where
  "request server clock endpoint retryCount =
     (let url = (if startsWith endpoint ''http'' then endpoint else GITHUB_API_BASE @ endpoint);
          response = server retryCount
      in if isRateLimited response then
           (if retryCount \<ge> 3 then
              ([Fetch url],
               Thrown (GitHubClientError ''Rate limit exceeded. Please wait and try again later.''
                         (status response) endpoint))
            else
              (let waitTime = rateLimitWaitTime (headers response ''X-RateLimit-Reset'')
                                (clock retryCount);
                   (events, result) = request server clock endpoint (retryCount + 1)
               in (Fetch url # Sleep waitTime # events, result)))
         else if \<not> (200 \<le> status response \<and> status response \<le> 299) then
           ([Fetch url],
            Thrown (GitHubClientError
                      (case errorMessage response of
                         None \<Rightarrow> ''GitHub API error: '' @ natToString (status response)
                                   @ '' '' @ statusText response
                       | Some m \<Rightarrow>
                           if m \<noteq> [] then ''GitHub API error: '' @ m
                           else ''GitHub API error: '' @ natToString (status response)
                                  @ '' '' @ statusText response)
                      (status response) endpoint))
         else ([Fetch url], Returned (payload response, headers response ''Link'')))"
  by pat_completeness auto
termination
  by (relation "measure (\<lambda>(server, clock, endpoint, retryCount). 3 - retryCount)") auto

declare request.simps [simp del]

section \<open>\<^verbatim>\<open>src/cache.ts\<close>\<close>

definition CACHE_TTL_MS :: int where
  "CACHE_TTL_MS = 24 * 60 * 60 * 1000"

definition CACHE_VERSION :: int where
  "CACHE_VERSION = 1"

record 'a cacheEntry =
  data :: 'a
  timestamp :: int
  version :: int

text \<open>
  The home directory and the collation of \<^verbatim>\<open>localeCompare\<close> belong to the host.
\<close>

record cacheHost =
  homedir :: string
  localeCompare :: "string \<Rightarrow> string \<Rightarrow> int"

definition CACHE_DIR :: "cacheHost \<Rightarrow> string" where
  "CACHE_DIR host = homedir host @ ''/.whatidid-cache''"

fun join :: "string \<Rightarrow> string list \<Rightarrow> string" where
  "join sep [] = []"
| "join sep [x] = x"
| "join sep (x # y # ys) = x @ sep @ join sep (y # ys)"

text \<open>\<^verbatim>\<open>n.toString(16)\<close> for a natural number \<^verbatim>\<open>n\<close>\<close>

definition hexDigitChar :: "nat \<Rightarrow> char" where
  "hexDigitChar d = (if d < 10 then char_of (48 + d) else char_of (87 + d))"

fun natToHex :: "nat \<Rightarrow> string" where
  "natToHex n = (if n < 16 then [hexDigitChar n] else natToHex (n div 16) @ [hexDigitChar (n mod 16)])"

declare natToHex.simps [simp del]

text \<open>
  \<^verbatim>\<open>
  let hash = 0;
  for (let i = 0; i < str.length; i++) {
    const char = str.charCodeAt(i);
    hash = ((hash << 5) - hash) + char;
    hash = hash & hash; // Convert to 32bit integer
  }
  return `${prefix}_${Math.abs(hash).toString(16)}`;
  \<close>
  After each step \<^verbatim>\<open>hash\<close> is a signed 32-bit integer. The parameters are the entries of
  the object in their order.
\<close>

definition generateKey :: "cacheHost \<Rightarrow> string \<Rightarrow> (string \<times> string) list \<Rightarrow> string" where
  "generateKey host prefix params =
     (let sortedParams =
            join ''&'' (map (\<lambda>(k, v). k @ ''='' @ v)
                         (js_sort (\<lambda>(a, _) (b, _). localeCompare host a b) params));
          str = prefix @ '':'' @ sortedParams;
          hash = foldl (\<lambda>(hash :: 32 word) c. (push_bit 5 hash - hash) + of_nat (of_char c)) 0 str
      in prefix @ ''_'' @ natToHex (nat \<bar>sint hash\<bar>))"

definition getCachePath :: "cacheHost \<Rightarrow> string \<Rightarrow> string" where
  "getCachePath host key = CACHE_DIR host @ ''/'' @ key @ ''.json''"

text \<open>
  The cache directory is a map from paths to files. A file holds the JSON of an entry, or
  text that \<^verbatim>\<open>JSON.parse\<close> rejects; a read that throws gives \<^verbatim>\<open>null\<close>.
\<close>

datatype 'a fileContent = Unparsable | Json "'a cacheEntry"

definition Cache_get ::
  "cacheHost \<Rightarrow> bool \<Rightarrow> (string \<rightharpoonup> 'a fileContent) \<Rightarrow> int \<Rightarrow> string \<Rightarrow> (string \<times> string) list
    \<Rightarrow> 'a option" where
  "Cache_get host enabled files now prefix params =
     (if \<not> enabled then None
      else (let key = generateKey host prefix params;
                path = getCachePath host key
            in case files path of
                 None \<Rightarrow> None
               | Some Unparsable \<Rightarrow> None
               | Some (Json entry) \<Rightarrow>
                   if version entry \<noteq> CACHE_VERSION then None
                   else if now - timestamp entry > CACHE_TTL_MS then None
                   else Some (data entry)))"

text \<open>
  A write that fails is ignored and leaves the files as they were; whether the write
  succeeds is the parameter \<open>writeSucceeds\<close>.
\<close>

definition Cache_set ::
  "cacheHost \<Rightarrow> bool \<Rightarrow> bool \<Rightarrow> (string \<rightharpoonup> 'a fileContent) \<Rightarrow> int \<Rightarrow> string
    \<Rightarrow> (string \<times> string) list \<Rightarrow> 'a \<Rightarrow> (string \<rightharpoonup> 'a fileContent)" where
  "Cache_set host enabled writeSucceeds files now prefix params d =
     (if \<not> enabled then files
      else (let key = generateKey host prefix params;
                path = getCachePath host key;
                entry = \<lparr>data = d, timestamp = now, version = CACHE_VERSION\<rparr>
            in if writeSucceeds then files(path \<mapsto> Json entry) else files))"

subsection \<open>The two title measures in the words of the specification\<close>

text \<open>
  The tokens of a title: the title is lower-cased; punctuation, that is every character
  that is neither a word character nor white space, is replaced by a space; the words of
  the result are its maximal runs of characters other than white space; the tokens are
  the words longer than 2 characters.
\<close>

definition isPunctuation :: "char \<Rightarrow> bool" where
  "isPunctuation c \<longleftrightarrow> \<not> isWordChar c \<and> \<not> isSpaceChar c"

definition wordsOf :: "string \<Rightarrow> string set" where
  "wordsOf u =
     {w. w \<noteq> [] \<and> (\<forall>c \<in> set w. \<not> isSpaceChar c)
         \<and> (\<exists>before after. u = before @ w @ after
               \<and> (before = [] \<or> isSpaceChar (last before))
               \<and> (after = [] \<or> isSpaceChar (hd after)))}"

definition titleTokens :: "string \<Rightarrow> string set" where
  "titleTokens s =
     {w \<in> wordsOf (map (\<lambda>c. if isPunctuation c then CHR '' '' else c) (toLowerCase s)).
        length w > 2}"

text \<open>
  The token Jaccard similarity of two titles: the size of the intersection of their token
  sets over the size of the union, as a number. Two titles without any token have
  similarity 0, the value the specification fixes for empty token sets.
\<close>

definition tokenJaccard :: "string \<Rightarrow> string \<Rightarrow> number" where
  "tokenJaccard s1 s2 =
     (let A = titleTokens s1; B = titleTokens s2
      in if A \<union> B = {} then 0
         else num_div (of_nat (card (A \<inter> B))) (of_nat (card (A \<union> B))))"

text \<open>
  The edit distance between the first \<open>i\<close> characters of \<open>s\<close> and the first \<open>j\<close>
  characters of \<open>t\<close>: the least number of deletions, insertions and substitutions, by
  the recurrence on the last characters of the two prefixes.
\<close>

fun prefixDistance :: "string \<Rightarrow> string \<Rightarrow> nat \<Rightarrow> nat \<Rightarrow> nat" where
  "prefixDistance s t 0 j = j"
| "prefixDistance s t (Suc i) 0 = Suc i"
| "prefixDistance s t (Suc i) (Suc j) =
     min (min (prefixDistance s t i (Suc j) + 1) (prefixDistance s t (Suc i) j + 1))
         (prefixDistance s t i j + (if s ! i = t ! j then 0 else 1))"

subsection \<open>Two features of one project\<close>

definition exportButton :: feature where
  "exportButton =
     \<lparr>project = ''a/b'', title = ''Add export button'', description = ''Button that exports'',
      type = Feature, prs = [1], startDate = ''2024-02-20T10:00:00Z'',
      endDate = ''2024-03-01T10:00:00Z'', confidence = Medium\<rparr>"

definition exportFeature :: feature where
  "exportFeature =
     \<lparr>project = ''a/b'', title = ''Add export feature'', description = ''Export of reports'',
      type = Feature, prs = [2], startDate = ''2024-03-10T09:00:00Z'',
      endDate = ''2024-03-15T10:00:00Z'', confidence = Medium\<rparr>"

subsection \<open>Pull requests found twice, and options with an allow-list\<close>

definition examplePRs :: "pullRequest list" where
  "examplePRs =
     [\<lparr>number = 2, title = ''Add export feature'', body = None,
       url = ''https://github.com/a/b/pull/2'', repoName = ''b'', repoFullName = ''a/b'',
       baseBranch = ''main'', createdAt = ''2024-03-10T09:00:00Z'',
       mergedAt = ''2024-03-15T10:00:00Z''\<rparr>,
      \<lparr>number = 1, title = ''Add export button'', body = None,
       url = ''https://github.com/a/b/pull/1'', repoName = ''b'', repoFullName = ''a/b'',
       baseBranch = ''main'', createdAt = ''2024-02-20T10:00:00Z'',
       mergedAt = ''2024-03-01T10:00:00Z''\<rparr>,
      \<lparr>number = 2, title = ''Add export feature (org sweep)'', body = None,
       url = ''https://github.com/a/b/pull/2'', repoName = ''b'', repoFullName = ''a/b'',
       baseBranch = ''main'', createdAt = ''2024-03-10T09:00:00Z'',
       mergedAt = ''2024-03-15T10:00:00Z''\<rparr>]"

definition personalWithAllowList :: gitHubClientOptions where
  "personalWithAllowList =
     \<lparr>cache = None, scope = Some Personal, repos = Some [''acme/app'', ''octocat/site''],
      orgs = None, excludeRepos = Some [''octocat/site''], skipOrgScan = None, verbose = None\<rparr>"

definition orgSweep :: gitHubClientOptions where
  "orgSweep =
     \<lparr>cache = None, scope = Some Orgs, repos = None, orgs = Some [''acme''],
      excludeRepos = Some [''acme/legacy''], skipOrgScan = None, verbose = None\<rparr>"

subsection \<open>A throttled server, and a host for the cache\<close>

text \<open>
  For lower-case ASCII keys, as the callers of the cache use them, the collation of
  \<^verbatim>\<open>localeCompare\<close> is the order of the code units.
\<close>

fun codeUnitCompare :: "string \<Rightarrow> string \<Rightarrow> int" where
  "codeUnitCompare [] [] = 0"
| "codeUnitCompare [] (b # bs) = - 1"
| "codeUnitCompare (a # as) [] = 1"
| "codeUnitCompare (a # as) (b # bs) =
     (if (of_char a :: nat) < of_char b then - 1
      else if (of_char b :: nat) < of_char a then 1
      else codeUnitCompare as bs)"

definition exampleHost :: cacheHost where
  "exampleHost = \<lparr>homedir = ''/home/octocat'', localeCompare = codeUnitCompare\<rparr>"

definition searchParams :: "(string \<times> string) list" where
  "searchParams = [(''username'', ''octocat''), (''since'', ''2024-01-01''),
     (''until'', ''2024-12-31''), (''type'', ''search'')]"

definition always429 :: "nat \<Rightarrow> unit response" where
  "always429 n =
     \<lparr>status = 429, statusText = ''Too Many Requests'',
      headers = (\<lambda>h. if h = ''X-RateLimit-Reset'' then Some ''1700000100'' else None),
      errorMessage = None, payload = ()\<rparr>"

section \<open>Properties\<close>

lemma startsWith_append: "startsWith s p \<longleftrightarrow> (\<exists>rest. s = p @ rest)"
proof
  assume "startsWith s p"
  then have "s = p @ drop (length p) s"
    unfolding startsWith_def by (metis append_take_drop_id)
  then show "\<exists>rest. s = p @ rest" ..
next
  assume "\<exists>rest. s = p @ rest"
  then show "startsWith s p" by (auto simp: startsWith_def)
qed

text \<open>
  C9: a branch is an allowed base branch exactly when it is \<^verbatim>\<open>main\<close>, is
  \<^verbatim>\<open>master\<close>, or starts with \<^verbatim>\<open>release/\<close>. The predicate has the branch name
  as its only argument, so no run configuration reaches it; \<^verbatim>\<open>feature/x\<close> is
  rejected and \<^verbatim>\<open>release/9.2\<close> is accepted.
\<close>

theorem isAllowedBaseBranch_policy:
  "(isAllowedBaseBranch branch \<longleftrightarrow>
      branch = ''main'' \<or> branch = ''master'' \<or> (\<exists>rest. branch = ''release/'' @ rest))
   \<and> \<not> isAllowedBaseBranch ''feature/x''
   \<and> isAllowedBaseBranch ''release/9.2''"
proof -
  have "isAllowedBaseBranch branch \<longleftrightarrow>
      branch = ''main'' \<or> branch = ''master'' \<or> (\<exists>rest. branch = ''release/'' @ rest)"
    unfolding isAllowedBaseBranch_def startsWith_append by simp
  moreover have "\<not> isAllowedBaseBranch ''feature/x''"
    by (simp add: isAllowedBaseBranch_def startsWith_def)
  moreover have "isAllowedBaseBranch ''release/9.2''"
    by (simp add: isAllowedBaseBranch_def startsWith_def)
  ultimately show ?thesis by blast
qed

subsection \<open>Sets and sorting\<close>

lemma foldl_Set_add_set: "set (foldl Set_add acc xs) = set acc \<union> set xs"
  by (induction xs arbitrary: acc) (auto simp: Set_add_def)

lemma foldl_Set_add_distinct: "distinct acc \<Longrightarrow> distinct (foldl Set_add acc xs)"
  by (induction xs arbitrary: acc) (auto simp: Set_add_def)

lemma set_new_Set: "set (new_Set xs) = set xs"
  by (simp add: new_Set_def foldl_Set_add_set)

lemma distinct_new_Set: "distinct (new_Set xs)"
  by (simp add: new_Set_def foldl_Set_add_distinct)

lemma length_new_Set: "length (new_Set xs) = card (set xs)"
  using distinct_card [OF distinct_new_Set [of xs]] by (simp add: set_new_Set)

lemma sort_insert_key: "sort_insert (\<lambda>a b. f a - f b) x ys = insort_key f x ys"
  by (induction ys) auto

lemma js_sort_key: "js_sort (\<lambda>a b. f a - f b) xs = sort_key f xs"
  by (induction xs) (auto simp: js_sort_def sort_insert_key)

lemma js_sort_numbers: "js_sort (\<lambda>a b. a - b) xs = sort xs"
  using js_sort_key [of "\<lambda>x. x" xs] by simp

subsection \<open>\<^verbatim>\<open>mergeFeatures\<close>\<close>

lemma mergeFeatures_base:
  "title (mergeFeatures dateParse f1 f2) =
     title (if confidence f1 = High \<or> confidence f2 = Low then f1 else f2)"
  "description (mergeFeatures dateParse f1 f2) =
     description (if confidence f1 = High \<or> confidence f2 = Low then f1 else f2)"
  "type (mergeFeatures dateParse f1 f2) =
     type (if confidence f1 = High \<or> confidence f2 = Low then f1 else f2)"
  "project (mergeFeatures dateParse f1 f2) =
     project (if confidence f1 = High \<or> confidence f2 = Low then f1 else f2)"
  by (simp_all add: mergeFeatures_def Let_def)

lemma prs_mergeFeatures:
  "prs (mergeFeatures dateParse f1 f2) = sorted_list_of_set (set (prs f1) \<union> set (prs f2))"
proof -
  let ?u = "new_Set (prs f1 @ prs f2)"
  have "prs (mergeFeatures dateParse f1 f2) = sort ?u"
    by (simp add: mergeFeatures_def Let_def js_sort_numbers)
  moreover have "sort ?u = sorted_list_of_set (set ?u)"
    using distinct_new_Set [of "prs f1 @ prs f2"]
    by (simp add: sorted_list_of_set_sort_remdups distinct_remdups_id)
  ultimately show ?thesis by (simp add: set_new_Set)
qed

lemma startDate_mergeFeatures:
  "startDate (mergeFeatures dateParse f1 f2) =
     (if dateLess dateParse (startDate f1) (startDate f2) then startDate f1 else startDate f2)"
  by (simp add: mergeFeatures_def Let_def)

lemma endDate_mergeFeatures:
  "endDate (mergeFeatures dateParse f1 f2) =
     (if dateLess dateParse (endDate f2) (endDate f1) then endDate f1 else endDate f2)"
  by (simp add: mergeFeatures_def Let_def)

lemma confidence_mergeFeatures:
  "confidence (mergeFeatures dateParse f1 f2) =
     (if confidence f1 \<noteq> confidence f2 then Medium else confidence f1)"
  by (simp add: mergeFeatures_def Let_def)

text \<open>
  C1, as the code has it: the title, the description and the type of the merged feature
  are those of the first argument when the first argument has confidence \<^verbatim>\<open>high\<close> or
  the second has confidence \<^verbatim>\<open>low\<close>, and those of the second argument in every other
  case. Two inputs of confidence \<^verbatim>\<open>high\<close>, or two of confidence \<^verbatim>\<open>low\<close>, give the
  fields of the first argument; two inputs of confidence \<^verbatim>\<open>medium\<close> give the fields of
  the second argument.
\<close>

theorem mergeFeatures_scalar_fields:
  "(confidence f1 = High \<or> confidence f2 = Low \<longrightarrow>
      title (mergeFeatures dateParse f1 f2) = title f1
      \<and> description (mergeFeatures dateParse f1 f2) = description f1
      \<and> type (mergeFeatures dateParse f1 f2) = type f1)
   \<and> (confidence f1 \<noteq> High \<and> confidence f2 \<noteq> Low \<longrightarrow>
      title (mergeFeatures dateParse f1 f2) = title f2
      \<and> description (mergeFeatures dateParse f1 f2) = description f2
      \<and> type (mergeFeatures dateParse f1 f2) = type f2)
   \<and> (confidence f1 = Medium \<and> confidence f2 = Medium \<longrightarrow>
      title (mergeFeatures dateParse f1 f2) = title f2
      \<and> description (mergeFeatures dateParse f1 f2) = description f2
      \<and> type (mergeFeatures dateParse f1 f2) = type f2)"
  by (simp add: mergeFeatures_base)

theorem mergeFeatures_scalar_fields_witness:
  "confidence exportButton = Medium \<and> confidence exportFeature = Medium
   \<and> confidence exportButton \<noteq> High \<and> confidence exportFeature \<noteq> Low
   \<and> title (mergeFeatures isoDateParse exportButton exportFeature) = ''Add export feature''
   \<and> description (mergeFeatures isoDateParse exportButton exportFeature) = ''Export of reports''
   \<and> type (mergeFeatures isoDateParse exportButton exportFeature) = Feature
   \<and> confidence (exportButton\<lparr>confidence := High\<rparr>) = High
   \<and> title (mergeFeatures isoDateParse (exportButton\<lparr>confidence := High\<rparr>) exportFeature)
       = ''Add export button''"
  using mergeFeatures_scalar_fields [of exportButton exportFeature isoDateParse]
    mergeFeatures_scalar_fields [of "exportButton\<lparr>confidence := High\<rparr>" exportFeature isoDateParse]
  by (simp add: exportButton_def exportFeature_def)

text \<open>
  The tie on \<^verbatim>\<open>medium\<close>: both inputs have the same confidence, and the title of the
  merged feature is not the title of the first argument.
\<close>

theorem mergeFeatures_medium_tie_counterexample:
  "confidence exportButton = confidence exportFeature
   \<and> title (mergeFeatures isoDateParse exportButton exportFeature) \<noteq> title exportButton"
  by (simp add: mergeFeatures_base exportButton_def exportFeature_def)

text \<open>
  C7: the merged feature's \<^verbatim>\<open>prs\<close> is the ascending list without repetition of the
  union of the two inputs' \<^verbatim>\<open>prs\<close>; its \<^verbatim>\<open>startDate\<close> is one of the two start dates
  and, when both are valid dates, the earlier one; its \<^verbatim>\<open>endDate\<close> is one of the two
  end dates and, when both are valid dates, the later one; its confidence is
  \<^verbatim>\<open>medium\<close> when the two confidences differ and the shared value otherwise.
\<close>

theorem mergeFeatures_prs_dates_confidence:
  "prs (mergeFeatures dateParse f1 f2) = sorted_list_of_set (set (prs f1) \<union> set (prs f2))
   \<and> sorted (prs (mergeFeatures dateParse f1 f2))
   \<and> distinct (prs (mergeFeatures dateParse f1 f2))
   \<and> set (prs (mergeFeatures dateParse f1 f2)) = set (prs f1) \<union> set (prs f2)
   \<and> (startDate (mergeFeatures dateParse f1 f2) = startDate f1
        \<or> startDate (mergeFeatures dateParse f1 f2) = startDate f2)
   \<and> (\<forall>s1 s2. dateParse (startDate f1) = Some s1 \<and> dateParse (startDate f2) = Some s2 \<longrightarrow>
         dateParse (startDate (mergeFeatures dateParse f1 f2)) = Some (min s1 s2))
   \<and> (endDate (mergeFeatures dateParse f1 f2) = endDate f1
        \<or> endDate (mergeFeatures dateParse f1 f2) = endDate f2)
   \<and> (\<forall>e1 e2. dateParse (endDate f1) = Some e1 \<and> dateParse (endDate f2) = Some e2 \<longrightarrow>
         dateParse (endDate (mergeFeatures dateParse f1 f2)) = Some (max e1 e2))
   \<and> confidence (mergeFeatures dateParse f1 f2) =
        (if confidence f1 \<noteq> confidence f2 then Medium else confidence f1)"
proof -
  let ?m = "mergeFeatures dateParse f1 f2"
  have p: "prs ?m = sorted_list_of_set (set (prs f1) \<union> set (prs f2))"
    by (rule prs_mergeFeatures)
  have "sorted (prs ?m)" "distinct (prs ?m)" "set (prs ?m) = set (prs f1) \<union> set (prs f2)"
    unfolding p by simp_all
  moreover have "startDate ?m = startDate f1 \<or> startDate ?m = startDate f2"
    by (simp add: startDate_mergeFeatures)
  moreover have "dateParse (startDate ?m) = Some (min s1 s2)"
    if "dateParse (startDate f1) = Some s1 \<and> dateParse (startDate f2) = Some s2" for s1 s2
    using that by (auto simp: startDate_mergeFeatures dateLess_def min_def)
  moreover have "endDate ?m = endDate f1 \<or> endDate ?m = endDate f2"
    by (simp add: endDate_mergeFeatures)
  moreover have "dateParse (endDate ?m) = Some (max e1 e2)"
    if "dateParse (endDate f1) = Some e1 \<and> dateParse (endDate f2) = Some e2" for e1 e2
    using that by (auto simp: endDate_mergeFeatures dateLess_def max_def)
  moreover note confidence_mergeFeatures [of dateParse f1 f2]
  ultimately show ?thesis using p by blast
qed

theorem mergeFeatures_prs_dates_confidence_witness:
  "isoDateParse (startDate exportButton) = Some 1708423200000
   \<and> isoDateParse (startDate exportFeature) = Some 1710061200000
   \<and> isoDateParse (endDate exportButton) = Some 1709287200000
   \<and> isoDateParse (endDate exportFeature) = Some 1710496800000
   \<and> isoDateParse (startDate (mergeFeatures isoDateParse exportButton exportFeature))
       = Some 1708423200000
   \<and> isoDateParse (endDate (mergeFeatures isoDateParse exportButton exportFeature))
       = Some 1710496800000
   \<and> set (prs (mergeFeatures isoDateParse exportButton exportFeature)) = {1, 2}
   \<and> confidence (mergeFeatures isoDateParse exportButton exportFeature) = Medium"
proof -
  have s1: "isoDateParse (startDate exportButton) = Some 1708423200000" by code_simp
  have s2: "isoDateParse (startDate exportFeature) = Some 1710061200000" by code_simp
  have e1: "isoDateParse (endDate exportButton) = Some 1709287200000" by code_simp
  have e2: "isoDateParse (endDate exportFeature) = Some 1710496800000" by code_simp
  have c: "confidence exportButton = Medium" "confidence exportFeature = Medium"
    "prs exportButton = [1]" "prs exportFeature = [2]"
    by (simp_all add: exportButton_def exportFeature_def)
  from mergeFeatures_prs_dates_confidence [of isoDateParse exportButton exportFeature]
    s1 s2 e1 e2 c
  show ?thesis by auto
qed

subsection \<open>\<^verbatim>\<open>levenshteinDistance\<close>\<close>

lemma dp_shape_set:
  assumes "dp_shape m n dp"
  shows "dp_shape m n (dp_set dp i j v)"
proof (cases "i \<le> m")
  case True
  with assms show ?thesis
    by (auto simp: dp_shape_def dp_set_def nth_list_update)
next
  case False
  with assms have "dp_set dp i j v = dp"
    by (simp add: dp_shape_def dp_set_def list_update_beyond)
  with assms show ?thesis by simp
qed

lemma dp_set_nth:
  assumes "dp_shape m n dp" "i \<le> m" "j \<le> n" "a \<le> m"
  shows "dp_set dp i j v ! a ! b = (if a = i \<and> b = j then v else dp ! a ! b)"
  using assms by (auto simp: dp_shape_def dp_set_def nth_list_update)

lemma foldl_upt_invariant:
  assumes "P a x" and "a \<le> b"
    and "\<And>k y. a \<le> k \<Longrightarrow> k < b \<Longrightarrow> P k y \<Longrightarrow> P (Suc k) (f y k)"
  shows "P b (foldl f x [a..<b])"
  using assms(2,3)
proof (induction b)
  case 0
  with assms(1) show ?case by simp
next
  case (Suc b)
  show ?case
  proof (cases "a = Suc b")
    case True
    with assms(1) show ?thesis by simp
  next
    case False
    with Suc.prems have le: "a \<le> b" by simp
    have "P b (foldl f x [a..<b])"
      using le Suc.prems(2) by (intro Suc.IH) auto
    then have "P (Suc b) (f (foldl f x [a..<b]) b)"
      using le by (intro Suc.prems(2)) auto
    with le show ?thesis by simp
  qed
qed


lemma first_column:
  assumes "dp_shape m n dp"
  shows "dp_shape m n (foldl (\<lambda>dp i. dp_set dp i 0 i) dp [0..<m + 1])
    \<and> (\<forall>a \<le> m. \<forall>b \<le> n.
          foldl (\<lambda>dp i. dp_set dp i 0 i) dp [0..<m + 1] ! a ! b = (if b = 0 then a else dp ! a ! b))"
proof -
  let ?P = "\<lambda>k d. dp_shape m n d
    \<and> (\<forall>a \<le> m. \<forall>b \<le> n. d ! a ! b = (if b = 0 \<and> a < k then a else dp ! a ! b))"
  have "?P (m + 1) (foldl (\<lambda>dp i. dp_set dp i 0 i) dp [0..<m + 1])"
  proof (rule foldl_upt_invariant [where P = ?P])
    show "?P 0 dp" using assms by simp
    show "0 \<le> m + 1" by simp
  next
    fix k y assume k: "0 \<le> k" "k < m + 1" and y: "?P k y"
    then have s: "dp_shape m n y" by simp
    have "dp_set y k 0 k ! a ! b = (if b = 0 \<and> a < Suc k then a else dp ! a ! b)"
      if "a \<le> m" "b \<le> n" for a b
      using that k y dp_set_nth [OF s, of k 0 a k b] by (auto simp: less_Suc_eq)
    with s show "?P (Suc k) (dp_set y k 0 k)" by (simp add: dp_shape_set)
  qed
  then show ?thesis by (auto simp: less_Suc_eq_le)
qed

lemma first_row:
  assumes "dp_shape m n dp"
  shows "dp_shape m n (foldl (\<lambda>dp j. dp_set dp 0 j j) dp [0..<n + 1])
    \<and> (\<forall>a \<le> m. \<forall>b \<le> n.
          foldl (\<lambda>dp j. dp_set dp 0 j j) dp [0..<n + 1] ! a ! b = (if a = 0 then b else dp ! a ! b))"
proof -
  let ?P = "\<lambda>k d. dp_shape m n d
    \<and> (\<forall>a \<le> m. \<forall>b \<le> n. d ! a ! b = (if a = 0 \<and> b < k then b else dp ! a ! b))"
  have "?P (n + 1) (foldl (\<lambda>dp j. dp_set dp 0 j j) dp [0..<n + 1])"
  proof (rule foldl_upt_invariant [where P = ?P])
    show "?P 0 dp" using assms by simp
    show "0 \<le> n + 1" by simp
  next
    fix k y assume k: "0 \<le> k" "k < n + 1" and y: "?P k y"
    then have s: "dp_shape m n y" by simp
    have "dp_set y 0 k k ! a ! b = (if a = 0 \<and> b < Suc k then b else dp ! a ! b)"
      if "a \<le> m" "b \<le> n" for a b
      using that k y dp_set_nth [OF s, of 0 k a k b] by (auto simp: less_Suc_eq)
    with s show "?P (Suc k) (dp_set y 0 k k)" by (simp add: dp_shape_set)
  qed
  then show ?thesis by (auto simp: less_Suc_eq_le)
qed


lemma prefixDistance_0: "prefixDistance s t a 0 = a"
  by (cases a) simp_all

lemma dp_cell_step:
  assumes "dp_shape m n y" "1 \<le> i" "i \<le> m" "1 \<le> k" "k \<le> n"
    and known: "\<forall>a \<le> m. \<forall>b \<le> n. (a < i \<or> b = 0 \<or> (a = i \<and> b < k)) \<longrightarrow>
                  y ! a ! b = prefixDistance s t a b"
  shows "dp_cell s t y i k = prefixDistance s t i k"
proof -
  obtain i' k' where ik: "i = Suc i'" "k = Suc k'"
    using assms(2,4) by (metis One_nat_def Suc_le_D)
  have "y ! i' ! k = prefixDistance s t i' k" "y ! i ! k' = prefixDistance s t i k'"
    "y ! i' ! k' = prefixDistance s t i' k'"
    using known assms(3,5) ik by auto
  then show ?thesis by (simp add: dp_cell_def ik)
qed

lemma fill_row:
  assumes shape: "dp_shape m n dp" and i: "1 \<le> i" "i \<le> m"
    and known: "\<forall>a \<le> m. \<forall>b \<le> n. (a < i \<or> b = 0) \<longrightarrow> dp ! a ! b = prefixDistance s t a b"
  shows "dp_shape m n (foldl (\<lambda>dp j. dp_set dp i j (dp_cell s t dp i j)) dp [1..<n + 1])
    \<and> (\<forall>a \<le> m. \<forall>b \<le> n. (a < Suc i \<or> b = 0) \<longrightarrow>
          foldl (\<lambda>dp j. dp_set dp i j (dp_cell s t dp i j)) dp [1..<n + 1] ! a ! b
            = prefixDistance s t a b)"
proof -
  let ?P = "\<lambda>k d. dp_shape m n d
    \<and> (\<forall>a \<le> m. \<forall>b \<le> n. (a < i \<or> b = 0 \<or> (a = i \<and> b < k)) \<longrightarrow>
          d ! a ! b = prefixDistance s t a b)"
  define d where "d = foldl (\<lambda>dp j. dp_set dp i j (dp_cell s t dp i j)) dp [1..<n + 1]"
  have "?P (n + 1) d"
    unfolding d_def
  proof (rule foldl_upt_invariant [where P = ?P])
    show "?P 1 dp" using shape known by auto
    show "1 \<le> n + 1" by simp
  next
    fix k y assume k: "1 \<le> k" "k < n + 1" and y: "?P k y"
    then have s: "dp_shape m n y" by simp
    from k have kn: "k \<le> n" by simp
    have cell: "dp_cell s t y i k = prefixDistance s t i k"
      using dp_cell_step [OF s i k(1) kn] y by blast
    have "dp_set y i k (dp_cell s t y i k) ! a ! b = prefixDistance s t a b"
      if "a \<le> m" "b \<le> n" "a < i \<or> b = 0 \<or> (a = i \<and> b < Suc k)" for a b
    proof (cases "a = i \<and> b = k")
      case True
      with dp_set_nth [OF s i(2) kn that(1), of "dp_cell s t y i k" b] cell
      show ?thesis by simp
    next
      case False
      with that have "a < i \<or> b = 0 \<or> (a = i \<and> b < k)" by auto
      with y that have "y ! a ! b = prefixDistance s t a b" by blast
      with dp_set_nth [OF s i(2) kn that(1), of "dp_cell s t y i k" b] False
      show ?thesis by auto
    qed
    with s show "?P (Suc k) (dp_set y i k (dp_cell s t y i k))"
      by (simp add: dp_shape_set)
  qed
  then have sh: "dp_shape m n d"
    and all: "\<And>a b. a \<le> m \<Longrightarrow> b \<le> n \<Longrightarrow> a < i \<or> b = 0 \<or> (a = i \<and> b < n + 1)
                \<Longrightarrow> d ! a ! b = prefixDistance s t a b"
    by blast+
  have "d ! a ! b = prefixDistance s t a b" if "a \<le> m" "b \<le> n" "a < Suc i \<or> b = 0" for a b
  proof -
    from that have "a < i \<or> b = 0 \<or> (a = i \<and> b < n + 1)" by auto
    with that show ?thesis by (intro all)
  qed
  with sh have "dp_shape m n d
    \<and> (\<forall>a \<le> m. \<forall>b \<le> n. (a < Suc i \<or> b = 0) \<longrightarrow> d ! a ! b = prefixDistance s t a b)"
    by blast
  then show ?thesis unfolding d_def .
qed

lemma levenshteinDistance_prefixDistance:
  "levenshteinDistance s t = prefixDistance s t (length s) (length t)"
proof -
  let ?m = "length s" and ?n = "length t"
  let ?dp0 = "replicate (?m + 1) (replicate (?n + 1) (0::nat))"
  let ?dp1 = "foldl (\<lambda>dp i. dp_set dp i 0 i) ?dp0 [0..<?m + 1]"
  let ?dp2 = "foldl (\<lambda>dp j. dp_set dp 0 j j) ?dp1 [0..<?n + 1]"
  let ?row = "\<lambda>dp i. foldl (\<lambda>dp j. dp_set dp i j (dp_cell s t dp i j)) dp [1..<?n + 1]"
  let ?dp3 = "foldl ?row ?dp2 [1..<?m + 1]"
  let ?Q = "\<lambda>i d. dp_shape ?m ?n d
    \<and> (\<forall>a \<le> ?m. \<forall>b \<le> ?n. (a < i \<or> b = 0) \<longrightarrow> d ! a ! b = prefixDistance s t a b)"
  have s0: "dp_shape ?m ?n ?dp0" by (simp add: dp_shape_def del: replicate_Suc)
  note c = first_column [OF s0]
  note r = first_row [OF c [THEN conjunct1]]
  have q1: "?Q 1 ?dp2"
  proof (intro conjI allI impI)
    show "dp_shape ?m ?n ?dp2" using r by simp
  next
    fix a b assume ab: "a \<le> ?m" "b \<le> ?n" "a < 1 \<or> b = 0"
    show "?dp2 ! a ! b = prefixDistance s t a b"
    proof (cases "a = 0")
      case True
      with r ab show ?thesis by simp
    next
      case False
      with ab have b: "b = 0" by simp
      from r ab False have "?dp2 ! a ! b = ?dp1 ! a ! b" by simp
      also from c ab b have "\<dots> = a" by simp
      finally show ?thesis by (simp add: b prefixDistance_0)
    qed
  qed
  define dp3 where "dp3 = ?dp3"
  have "?Q (?m + 1) dp3"
    unfolding dp3_def
  proof (rule foldl_upt_invariant [where P = ?Q])
    show "?Q 1 ?dp2" by (rule q1)
    show "1 \<le> ?m + 1" by simp
  next
    fix i y assume i: "1 \<le> i" "i < ?m + 1" and y: "?Q i y"
    then have "i \<le> ?m" by simp
    from fill_row [OF y [THEN conjunct1] i(1) this y [THEN conjunct2]]
    show "?Q (Suc i) (?row y i)" .
  qed
  then have "dp3 ! ?m ! ?n = prefixDistance s t ?m ?n" by simp
  moreover have "levenshteinDistance s t = dp3 ! ?m ! ?n"
    unfolding dp3_def levenshteinDistance_def Let_def ..
  ultimately show ?thesis by simp
qed

subsection \<open>Rounding\<close>

lemma two_powi_pos: "0 < (2::rat) powi k"
  by simp

lemma two_powi_add: "(2::rat) powi (a + b) = 2 powi a * 2 powi b"
  by (simp add: power_int_add)

lemma two_powi_le: "a \<le> b \<Longrightarrow> (2::rat) powi a \<le> 2 powi b"
  by (rule power_int_increasing) simp_all

lemma two_powi_less: "a < b \<Longrightarrow> (2::rat) powi a < 2 powi b"
  by (rule power_int_strict_increasing) simp_all

lemma two_powi_le_D: "(2::rat) powi a \<le> 2 powi b \<Longrightarrow> a \<le> b"
  using two_powi_less [of b a] by (cases "a \<le> b") simp_all

lemma bitlen_bounds_rat:
  assumes "0 < p"
  shows "(2::rat) powi (bitlen p - 1) \<le> of_int p" "of_int p < (2::rat) powi bitlen p"
proof -
  have b: "1 \<le> bitlen p" using assms by (auto simp: bitlen_alt_def)
  from bitlen_bounds [OF assms]
  have "(of_int (2 ^ nat (bitlen p - 1)) :: rat) \<le> of_int p"
    and "(of_int p :: rat) < of_int (2 ^ nat (bitlen p))"
    by (simp_all only: of_int_le_iff of_int_less_iff)
  then have "(2::rat) ^ nat (bitlen p - 1) \<le> of_int p" "of_int p < (2::rat) ^ nat (bitlen p)"
    by simp_all
  with b show "(2::rat) powi (bitlen p - 1) \<le> of_int p" "of_int p < (2::rat) powi bitlen p"
    by (simp_all add: power_int_nonneg_exp)
qed

lemma exponentOf_bounds:
  assumes "0 < x"
  shows "2 powi exponentOf x \<le> x" "x < 2 powi (exponentOf x + 1)"
proof -
  obtain p q where pq: "quotient_of x = (p, q)" by (cases "quotient_of x")
  then have q: "0 < q" by (rule quotient_of_denom_pos)
  from pq have x: "x = of_int p / of_int q" by (rule quotient_of_div)
  with assms q have p: "0 < p" by (simp add: zero_less_divide_iff)
  define d where "d = bitlen p - bitlen q"
  define P Q :: rat where "P = of_int p" and "Q = of_int q"
  have Q: "0 < Q" using q by (simp add: Q_def)
  have xPQ: "x = P / Q" by (simp add: x P_def Q_def)
  note bp = bitlen_bounds_rat [OF p, folded P_def]
  note bq = bitlen_bounds_rat [OF q, folded Q_def]
  have "P < 2 powi (d + 1) * 2 powi (bitlen q - 1)"
    using bp(2) by (simp add: d_def flip: two_powi_add)
  also have "\<dots> \<le> 2 powi (d + 1) * Q"
    using bq(1) by (intro mult_left_mono) simp_all
  finally have upper: "x < 2 powi (d + 1)"
    using Q by (simp add: xPQ pos_divide_less_eq)
  have "2 powi (d - 1) * Q < 2 powi (d - 1) * 2 powi bitlen q"
    using bq(2) by (intro mult_strict_left_mono) simp_all
  also have "\<dots> = 2 powi (bitlen p - 1)"
    by (simp add: d_def flip: two_powi_add)
  also have "\<dots> \<le> P" by (rule bp(1))
  finally have lower: "2 powi (d - 1) < x"
    using Q by (simp add: xPQ pos_less_divide_eq)
  have e: "exponentOf x = (if 2 powi d \<le> x then d else d - 1)"
    by (simp add: exponentOf_def pq d_def Let_def)
  show "2 powi exponentOf x \<le> x"
    using lower by (simp add: e)
  show "x < 2 powi (exponentOf x + 1)"
    using upper by (simp add: e)
qed

lemma roundHalfEven_le:
  assumes "q \<le> of_int N"
  shows "roundHalfEven q \<le> N"
proof -
  have f: "\<lfloor>q\<rfloor> \<le> N" using assms by (simp add: floor_le_iff)
  show ?thesis
  proof (cases "q = of_int \<lfloor>q\<rfloor>")
    case True
    then have "roundHalfEven q = \<lfloor>q\<rfloor>" by (simp add: roundHalfEven_def Let_def)
    with f show ?thesis by simp
  next
    case False
    then have "of_int \<lfloor>q\<rfloor> < q"
      using of_int_floor_le [of q] by (metis less_le)
    with assms have "(of_int \<lfloor>q\<rfloor> :: rat) < of_int N" by linarith
    then have "\<lfloor>q\<rfloor> < N" by (simp only: of_int_less_iff)
    moreover have "roundHalfEven q \<le> \<lfloor>q\<rfloor> + 1" by (simp add: roundHalfEven_def Let_def)
    ultimately show ?thesis by simp
  qed
qed

lemma roundHalfEven_nonneg: "0 \<le> q \<Longrightarrow> 0 \<le> roundHalfEven q"
  by (auto simp: roundHalfEven_def Let_def)


lemma fl_nonneg: "0 \<le> x \<Longrightarrow> 0 \<le> fl x"
  by (auto simp: fl_def Let_def intro!: mult_nonneg_nonneg roundHalfEven_nonneg divide_nonneg_pos)

lemma fl_nonpos: "x \<le> 0 \<Longrightarrow> fl x \<le> 0"
proof -
  assume "x \<le> 0"
  show ?thesis
  proof (cases "x = 0")
    case True
    then show ?thesis by (simp add: fl_def)
  next
    case False
    with \<open>x \<le> 0\<close> have neg: "x < 0" by simp
    have "0 \<le> roundHalfEven (\<bar>x\<bar> / 2 powi (exponentOf \<bar>x\<bar> - 52))"
      by (intro roundHalfEven_nonneg divide_nonneg_pos) simp_all
    then have "0 \<le> of_int (roundHalfEven (\<bar>x\<bar> / 2 powi (exponentOf \<bar>x\<bar> - 52)))
        * (2::rat) powi (exponentOf \<bar>x\<bar> - 52)"
      by (intro mult_nonneg_nonneg) simp_all
    with neg show ?thesis
      by (simp add: fl_def Let_def mult.assoc mult_le_0_iff)
  qed
qed

text \<open>A number with at most 53 significant bits bounds the rounding of what it bounds.\<close>

lemma two_powi_shift: "a = b + c \<Longrightarrow> (2::rat) powi a = 2 powi b * 2 powi c"
  by (simp add: two_powi_add)

lemma two_powi_53: "(2::rat) powi 53 = 2 ^ 53"
  by (simp only: power_int_numeral)

lemma two_powi_52: "(2::rat) powi 52 = 2 ^ 52"
  by (simp only: power_int_numeral)

lemma fl_le_representable:
  assumes xr: "x \<le> of_int m * 2 powi k" and m: "0 < m" "m \<le> 2 ^ 53"
  shows "fl x \<le> of_int m * 2 powi k"
proof (cases "x \<le> 0")
  case True
  then have "fl x \<le> 0" by (rule fl_nonpos)
  also have "0 \<le> of_int m * (2::rat) powi k" using m by simp
  finally show ?thesis .
next
  case False
  then have x: "0 < x" by simp
  define r :: rat where "r = of_int m * 2 powi k"
  define e where "e = exponentOf x"
  define u :: rat where "u = 2 powi (e - 52)"
  have u: "0 < u" by (simp add: u_def)
  note eb = exponentOf_bounds [OF x, folded e_def]
  have fx: "fl x = of_int (roundHalfEven (x / u)) * u"
    using x by (simp add: fl_def Let_def e_def u_def)
  have xr': "x \<le> r" using xr by (simp add: r_def)
  have e1: "(2::rat) powi (e + 1) = 2 ^ 53 * u"
    unfolding u_def two_powi_53 [symmetric] by (rule two_powi_shift) simp
  have e0: "(2::rat) powi e = 2 ^ 52 * u"
    unfolding u_def two_powi_52 [symmetric] by (rule two_powi_shift) simp
  have q53: "x / u < 2 ^ 53"
  proof -
    have "x < 2 powi (e + 1)" by (rule eb(2))
    then have "x < 2 ^ 53 * u" by (simp only: e1)
    then show ?thesis using u by (simp only: pos_divide_less_eq)
  qed
  have "\<exists>N. x / u \<le> of_int N \<and> of_int N * u \<le> r"
  proof (cases "2 powi (e + 1) \<le> r")
    case True
    have "x / u \<le> of_int (2 ^ 53)" using q53 by simp
    moreover have "of_int (2 ^ 53) * u \<le> r"
      using True unfolding e1 by simp
    ultimately show ?thesis by blast
  next
    case False
    have mr: "(of_int m :: rat) \<le> 2 ^ 53"
    proof -
      have "(of_int m :: rat) \<le> of_int (2 ^ 53)" using m(2) by (simp only: of_int_le_iff)
      then show ?thesis by simp
    qed
    have "2 powi e \<le> r" using eb(1) xr' by (rule order_trans)
    also have "r \<le> 2 ^ 53 * 2 powi k"
      unfolding r_def using mr by (rule mult_right_mono) simp
    also have "\<dots> = 2 powi (53 + k)"
      unfolding two_powi_53 [symmetric] by (rule two_powi_shift [symmetric]) simp
    finally have "e \<le> 53 + k" by (rule two_powi_le_D)
    show ?thesis
    proof (cases "e - 52 \<le> k")
      case True
      define j where "j = nat (k - (e - 52))"
      have "(2::rat) powi k = 2 powi (int j) * 2 powi (e - 52)"
        using True by (intro two_powi_shift) (simp add: j_def)
      then have "(2::rat) powi k = 2 ^ j * u" by (simp only: power_int_of_nat u_def)
      then have r: "r = of_int (m * 2 ^ j) * u" by (simp add: r_def)
      have "x \<le> of_int (m * 2 ^ j) * u" using xr' by (simp only: r)
      then have "x / u \<le> of_int (m * 2 ^ j)" using u by (simp only: pos_divide_le_eq)
      moreover have "of_int (m * 2 ^ j) * u \<le> r" by (simp only: r order_refl)
      ultimately show ?thesis by blast
    next
      case False
      with \<open>e \<le> 53 + k\<close> have k: "e = 53 + k" by simp
      have "(2::rat) powi e = 2 ^ 53 * 2 powi k"
        unfolding two_powi_53 [symmetric] by (rule two_powi_shift) (simp add: k)
      with \<open>2 powi e \<le> r\<close> have "2 ^ 53 * 2 powi k \<le> of_int m * (2::rat) powi k"
        by (simp only: r_def)
      then have "(2::rat) ^ 53 \<le> of_int m"
        by (simp only: mult_le_cancel_right_pos [OF two_powi_pos])
      with mr have "(of_int m :: rat) = 2 ^ 53" by (rule order_antisym)
      then have "r = 2 ^ 53 * 2 powi k" by (simp only: r_def)
      also have "\<dots> = 2 powi e" by (simp only: \<open>(2::rat) powi e = 2 ^ 53 * 2 powi k\<close>)
      also have "\<dots> = of_int (2 ^ 52) * u" unfolding e0 by simp
      finally have r: "r = of_int (2 ^ 52) * u" .
      have "x \<le> of_int (2 ^ 52) * u" using xr' by (simp only: r)
      then have "x / u \<le> of_int (2 ^ 52)" using u by (simp only: pos_divide_le_eq)
      moreover have "of_int (2 ^ 52) * u \<le> r" by (simp only: r order_refl)
      ultimately show ?thesis by blast
    qed
  qed
  then obtain N where N: "x / u \<le> of_int N" "of_int N * u \<le> r" by blast
  from N(1) have "roundHalfEven (x / u) \<le> N" by (rule roundHalfEven_le)
  then have "(of_int (roundHalfEven (x / u)) :: rat) \<le> of_int N" by (simp only: of_int_le_iff)
  then have "fl x \<le> of_int N * u" unfolding fx using u by (intro mult_right_mono) simp_all
  also note N(2)
  finally show ?thesis by (simp only: r_def)
qed

lemma fl_le_1: "x \<le> 1 \<Longrightarrow> fl x \<le> 1"
  using fl_le_representable [of x 1 0] by simp

lemma fl_0: "fl 0 = 0"
  by (simp add: fl_def)

lemma fl_two_fifths: "fl 0.4 = of_int 3602879701896397 * 2 powi (- 53)"
  by code_simp

lemma fl_two_fifths_value: "fl 0.4 = 3602879701896397 / 9007199254740992"
  by code_simp

lemma fl_le_two_fifths: "x \<le> fl 0.4 \<Longrightarrow> fl x \<le> fl 0.4"
  unfolding fl_two_fifths by (rule fl_le_representable) simp_all

lemma fl_two_fifths_below_threshold: "fl 0.4 < defaultSimilarityThreshold"
  unfolding defaultSimilarityThreshold_def by code_simp

text \<open>
  Rounding is visible at the threshold: the blend of a token similarity of 3/4 and an
  edit-distance similarity of 1/8 is 1/2 in exact arithmetic, and below it in the
  arithmetic of the code.
\<close>

lemma blend_below_one_half:
  "num_add (num_mul (num_div 3 4) (fl 0.6)) (num_mul (num_sub 1 (num_div 14 16)) (fl 0.4))
     = 9007199254740991 / 18014398509481984
   \<and> num_add (num_mul (num_div 3 4) (fl 0.6)) (num_mul (num_sub 1 (num_div 14 16)) (fl 0.4))
     < defaultSimilarityThreshold
   \<and> (3 / 4) * 0.6 + (1 - 14 / 16) * 0.4 = (1 / 2 :: rat)"
  unfolding defaultSimilarityThreshold_def num_add_def num_mul_def num_sub_def num_div_def
  by code_simp

subsection \<open>The tokens of a title\<close>

lemma last_dropWhile: "dropWhile P xs \<noteq> [] \<Longrightarrow> last (dropWhile P xs) = last xs"
  by (induction xs) (auto split: if_splits)

lemma takeWhile_run:
  assumes "\<forall>c \<in> set w. P c" "after = [] \<or> \<not> P (hd after)"
  shows "takeWhile P (w @ after) = w" "dropWhile P (w @ after) = after"
  using assms by (induction w) (cases after; auto)+

lemma wordsOf_no_space:
  assumes "dropWhile (\<lambda>c. \<not> isSpaceChar c) u = []"
  shows "wordsOf u = {w. w = u \<and> w \<noteq> []}"
proof -
  from assms have ns: "\<forall>c \<in> set u. \<not> isSpaceChar c" by (simp add: dropWhile_eq_Nil_conv)
  show ?thesis
  proof (intro set_eqI iffI)
    fix w assume "w \<in> wordsOf u"
    then obtain before after where w: "w \<noteq> []" "u = before @ w @ after"
      "before = [] \<or> isSpaceChar (last before)" "after = [] \<or> isSpaceChar (hd after)"
      by (auto simp: wordsOf_def)
    have "before = []"
    proof (rule ccontr)
      assume "before \<noteq> []"
      with w(3) have "isSpaceChar (last before)" "last before \<in> set u"
        using w(2) by simp_all
      with ns show False by blast
    qed
    moreover have "after = []"
    proof (rule ccontr)
      assume "after \<noteq> []"
      with w(4) have "isSpaceChar (hd after)" "hd after \<in> set u"
        using w(2) by simp_all
      with ns show False by blast
    qed
    ultimately show "w \<in> {w. w = u \<and> w \<noteq> []}" using w by simp
  next
    fix w assume "w \<in> {w. w = u \<and> w \<noteq> []}"
    then have wu: "w = u" "w \<noteq> []" by blast+
    then have "u = [] @ w @ []" by simp
    with wu ns show "w \<in> wordsOf u"
      unfolding wordsOf_def by blast
  qed
qed

lemma wordsOf_step:
  assumes r: "dropWhile (\<lambda>c. \<not> isSpaceChar c) u \<noteq> []"
  shows "wordsOf u
    = {w. w = takeWhile (\<lambda>c. \<not> isSpaceChar c) u \<and> w \<noteq> []}
      \<union> wordsOf (dropWhile isSpaceChar (dropWhile (\<lambda>c. \<not> isSpaceChar c) u))"
proof -
  let ?ns = "\<lambda>c. \<not> isSpaceChar c"
  define f where "f = takeWhile ?ns u"
  define r where "r = dropWhile ?ns u"
  define sp where "sp = takeWhile isSpaceChar r"
  define r' where "r' = dropWhile isSpaceChar r"
  have u: "u = f @ r" by (simp add: f_def r_def)
  have rr: "r = sp @ r'" by (simp add: sp_def r'_def)
  have rne: "r \<noteq> []" using assms by (simp add: r_def)
  have hdr: "isSpaceChar (hd r)"
    using hd_dropWhile [of ?ns u] rne by (simp add: r_def)
  have spne: "sp \<noteq> []" using rne hdr by (cases r) (auto simp: sp_def)
  have spall: "\<forall>c \<in> set sp. isSpaceChar c"
    by (auto simp: sp_def dest: set_takeWhileD)
  have fall: "\<forall>c \<in> set f. \<not> isSpaceChar c"
    by (auto simp: f_def dest: set_takeWhileD)
  show ?thesis
    unfolding f_def [symmetric] r_def [symmetric] r'_def [symmetric]
  proof (intro set_eqI iffI)
    fix w assume "w \<in> {w. w = f \<and> w \<noteq> []} \<union> wordsOf r'"
    then consider "w = f" "w \<noteq> []" | "w \<in> wordsOf r'" by blast
    then show "w \<in> wordsOf u"
    proof cases
      case 1
      have "u = [] @ w @ r" using u 1 by simp
      with 1 fall rne hdr show ?thesis unfolding wordsOf_def by blast
    next
      case 2
      then obtain b a where w: "w \<noteq> []" "\<forall>c \<in> set w. \<not> isSpaceChar c" "r' = b @ w @ a"
        "b = [] \<or> isSpaceChar (last b)" "a = [] \<or> isSpaceChar (hd a)"
        by (auto simp: wordsOf_def)
      have "u = (f @ sp @ b) @ w @ a" using u rr w(3) by simp
      moreover have "isSpaceChar (last (f @ sp @ b))"
        using w(4) spne spall by (cases "b = []") (simp_all add: last_append)
      ultimately show ?thesis using w(1,2,5) unfolding wordsOf_def by blast
    qed
  next
    fix w assume "w \<in> wordsOf u"
    then obtain b a where w: "w \<noteq> []" "\<forall>c \<in> set w. \<not> isSpaceChar c" "u = b @ w @ a"
      "b = [] \<or> isSpaceChar (last b)" "a = [] \<or> isSpaceChar (hd a)"
      by (auto simp: wordsOf_def)
    show "w \<in> {w. w = f \<and> w \<noteq> []} \<union> wordsOf r'"
    proof (cases "b = []")
      case True
      have "takeWhile ?ns (w @ a) = w"
        using w(2,5) by (intro takeWhile_run) auto
      with True w(3) have "w = f" by (simp add: f_def)
      with w(1) show ?thesis by simp
    next
      case False
      with w(4) have lb: "isSpaceChar (last b)" by simp
      from False have lin: "last b \<in> set b" by simp
      have r1: "r = dropWhile ?ns b @ w @ a"
        unfolding r_def w(3) using lin lb by (simp add: dropWhile_append1)
      define b1 where "b1 = dropWhile ?ns b"
      have b1ne: "b1 \<noteq> []"
        unfolding b1_def using lin lb by (auto simp: dropWhile_eq_Nil_conv)
      have lb1: "isSpaceChar (last b1)"
        using last_dropWhile [of ?ns b] b1ne lb by (simp add: b1_def)
      have hw: "\<not> isSpaceChar (hd w)" using w(1,2) by (cases w) auto
      have "\<exists>b2. r' = b2 @ w @ a \<and> (b2 = [] \<or> isSpaceChar (last b2))"
      proof (cases "\<forall>c \<in> set b1. isSpaceChar c")
        case True
        then have "dropWhile isSpaceChar (b1 @ w @ a) = dropWhile isSpaceChar (w @ a)"
          by (simp add: dropWhile_append2)
        also have "\<dots> = w @ a" using w(1) hw by (cases w) auto
        finally have "r' = [] @ w @ a" by (simp add: r'_def r1 b1_def)
        then show ?thesis by blast
      next
        case False
        then obtain c where c: "c \<in> set b1" "\<not> isSpaceChar c" by blast
        then have "dropWhile isSpaceChar (b1 @ w @ a) = dropWhile isSpaceChar b1 @ w @ a"
          by (simp add: dropWhile_append1)
        then have r2: "r' = dropWhile isSpaceChar b1 @ w @ a" by (simp add: r'_def r1 b1_def)
        have ne: "dropWhile isSpaceChar b1 \<noteq> []"
          using c by (auto simp: dropWhile_eq_Nil_conv)
        from last_dropWhile [OF ne] lb1 have "isSpaceChar (last (dropWhile isSpaceChar b1))"
          by simp
        with r2 show ?thesis by blast
      qed
      then obtain b2 where "r' = b2 @ w @ a" "b2 = [] \<or> isSpaceChar (last b2)" by blast
      with w(1,2,5) have "w \<in> wordsOf r'" unfolding wordsOf_def by blast
      then show ?thesis by simp
    qed
  qed
qed

lemma splitSpaces_words: "{w \<in> set (splitSpaces u). w \<noteq> []} = wordsOf u"
proof (induction u rule: splitSpaces.induct)
  case (1 s)
  let ?ns = "\<lambda>c. \<not> isSpaceChar c"
  show ?case
  proof (cases "dropWhile ?ns s = []")
    case True
    then have "splitSpaces s = [takeWhile ?ns s]"
      by (subst splitSpaces.simps) (simp add: Let_def)
    moreover from True have "takeWhile ?ns s = s"
      by (simp add: dropWhile_eq_Nil_conv takeWhile_eq_all_conv)
    ultimately show ?thesis using wordsOf_no_space [OF True] by auto
  next
    case False
    then have sp: "splitSpaces s
        = takeWhile ?ns s # splitSpaces (dropWhile isSpaceChar (dropWhile ?ns s))"
      by (subst splitSpaces.simps) (simp only: Let_def if_False)
    have ih: "{w \<in> set (splitSpaces (dropWhile isSpaceChar (dropWhile ?ns s))). w \<noteq> []}
        = wordsOf (dropWhile isSpaceChar (dropWhile ?ns s))"
      using False by (intro 1) simp_all
    have "{w \<in> set (splitSpaces s). w \<noteq> []}
        = {w. w = takeWhile ?ns s \<and> w \<noteq> []}
          \<union> {w \<in> set (splitSpaces (dropWhile isSpaceChar (dropWhile ?ns s))). w \<noteq> []}"
      unfolding sp by (auto simp del: splitSpaces.simps)
    then show ?thesis
      by (simp only: ih wordsOf_step [OF False])
  qed
qed

lemma normalize_str_titleTokens: "set (normalize_str s) = titleTokens s"
proof -
  define u where "u = map (\<lambda>c. if isPunctuation c then CHR '' '' else c) (toLowerCase s)"
  have n: "normalize_str s = filter (\<lambda>word. length word > 2) (splitSpaces u)"
    by (simp add: normalize_str_def u_def isPunctuation_def)
  have "set (normalize_str s) = {w \<in> {w \<in> set (splitSpaces u). w \<noteq> []}. length w > 2}"
    unfolding n by auto
  then show ?thesis
    by (simp only: splitSpaces_words titleTokens_def u_def)
qed

lemma normalize_str_empty: "normalize_str s = [] \<longleftrightarrow> titleTokens s = {}"
  using normalize_str_titleTokens [of s] by (metis set_empty)

subsection \<open>\<^verbatim>\<open>featureSimilarity\<close>\<close>

lemma calculateSimilarity_tokenJaccard:
  "calculateSimilarity str1 str2 = tokenJaccard str1 str2"
proof -
  let ?A = "set (normalize_str str1)" and ?B = "set (normalize_str str2)"
  let ?t1 = "new_Set (normalize_str str1)" and ?t2 = "new_Set (normalize_str str2)"
  have inter: "length (new_Set (filter (\<lambda>x. x \<in> set ?t2) ?t1)) = card (?A \<inter> ?B)"
  proof -
    have "set (filter (\<lambda>x. x \<in> set ?t2) ?t1) = ?A \<inter> ?B"
      by (auto simp: set_new_Set)
    then show ?thesis by (simp add: length_new_Set)
  qed
  have union: "length (new_Set (?t1 @ ?t2)) = card (?A \<union> ?B)"
    by (simp add: length_new_Set set_new_Set)
  have empty: "length ?t1 = 0 \<longleftrightarrow> ?A = {}" "length ?t2 = 0 \<longleftrightarrow> ?B = {}"
    by (simp_all add: length_new_Set)
  have spec: "tokenJaccard str1 str2
      = (if ?A \<union> ?B = {} then 0
         else num_div (of_nat (card (?A \<inter> ?B))) (of_nat (card (?A \<union> ?B))))"
    by (simp only: tokenJaccard_def Let_def normalize_str_titleTokens)
  show ?thesis
  proof (cases "?A = {} \<or> ?B = {}")
    case True
    then have "calculateSimilarity str1 str2 = 0"
      using empty by (auto simp: calculateSimilarity_def Let_def)
    moreover from True have "?A \<inter> ?B = {}" by auto
    then have "tokenJaccard str1 str2 = 0"
      unfolding spec by (simp add: num_div_def fl_0)
    ultimately show ?thesis by simp
  next
    case False
    then have "calculateSimilarity str1 str2
        = num_div (of_nat (card (?A \<inter> ?B))) (of_nat (card (?A \<union> ?B)))"
      using empty inter union by (simp add: calculateSimilarity_def Let_def)
    moreover from False have "tokenJaccard str1 str2
        = num_div (of_nat (card (?A \<inter> ?B))) (of_nat (card (?A \<union> ?B)))"
      unfolding spec by simp
    ultimately show ?thesis by simp
  qed
qed

lemma calculateSimilarity_no_tokens:
  "normalize_str str1 = [] \<or> normalize_str str2 = [] \<Longrightarrow> calculateSimilarity str1 str2 = 0"
  by (auto simp: calculateSimilarity_def Let_def new_Set_def)

lemma levenshteinSimilarity_le_1: "levenshteinSimilarity str1 str2 \<le> 1"
proof (cases "max (length str1) (length str2) = 0")
  case True
  then show ?thesis by (simp add: levenshteinSimilarity_def Let_def)
next
  case False
  define q :: rat where "q = of_nat (levenshteinDistance (toLowerCase str1) (toLowerCase str2))
      / of_nat (max (length str1) (length str2))"
  have "0 \<le> q" by (simp add: q_def)
  then have "0 \<le> fl q" by (rule fl_nonneg)
  then have "fl (1 - fl q) \<le> 1" by (intro fl_le_1) simp
  moreover have "levenshteinSimilarity str1 str2 = fl (1 - fl q)"
    using False by (auto simp: levenshteinSimilarity_def Let_def num_sub_def num_div_def q_def)
  ultimately show ?thesis by simp
qed

lemma levenshteinSimilarity_formula:
  "levenshteinSimilarity str1 str2 =
     (if str1 = [] \<and> str2 = [] then 1
      else num_sub 1 (num_div (of_nat (levenshteinDistance (toLowerCase str1) (toLowerCase str2)))
                        (of_nat (max (length str1) (length str2)))))"
  by (simp add: levenshteinSimilarity_def Let_def)

lemma featureSimilarity_mismatch:
  "project f1 \<noteq> project f2 \<or> type f1 \<noteq> type f2 \<Longrightarrow> featureSimilarity f1 f2 = 0"
  by (auto simp: featureSimilarity_def)

lemma featureSimilarity_no_tokens:
  assumes "normalize_str (title f1) = [] \<or> normalize_str (title f2) = []"
  shows "featureSimilarity f1 f2 \<le> fl 0.4"
proof (cases "project f1 \<noteq> project f2 \<or> type f1 \<noteq> type f2")
  case True
  then have "featureSimilarity f1 f2 = 0" by (rule featureSimilarity_mismatch)
  moreover have "(0::rat) \<le> fl 0.4" by (rule fl_nonneg) simp
  ultimately show ?thesis by simp
next
  case False
  define l where "l = levenshteinSimilarity (title f1) (title f2)"
  have zero: "calculateSimilarity (title f1) (title f2) = 0"
    using assms by (rule calculateSimilarity_no_tokens)
  have "(0::rat) \<le> fl 0.4" by (rule fl_nonneg) simp
  moreover have "l \<le> 1" unfolding l_def by (rule levenshteinSimilarity_le_1)
  ultimately have "l * fl 0.4 \<le> 1 * fl 0.4" by (rule mult_right_mono [rotated])
  then have "l * fl 0.4 \<le> fl 0.4" by simp
  then have "fl (l * fl 0.4) \<le> fl 0.4" by (rule fl_le_two_fifths)
  then have "fl (fl (l * fl 0.4)) \<le> fl 0.4" by (rule fl_le_two_fifths)
  moreover have "featureSimilarity f1 f2 = fl (fl (l * fl 0.4))"
    using False by (simp add: featureSimilarity_def Let_def zero l_def num_add_def num_mul_def fl_0)
  ultimately show ?thesis by simp
qed

lemma featureSimilarity_no_tokens_apart:
  assumes "normalize_str (title f1) = [] \<or> normalize_str (title f2) = []"
  shows "featureSimilarity f1 f2 < defaultSimilarityThreshold"
  using featureSimilarity_no_tokens [OF assms] fl_two_fifths_below_threshold
  by (rule le_less_trans)

subsection \<open>\<^verbatim>\<open>mergeSimilarFeatures\<close>\<close>

lemma mergeSimilarFeatures_pair_apart:
  assumes "featureSimilarity f1 f2 < similarityThreshold"
  shows "mergeSimilarFeatures dateParse [f1, f2] similarityThreshold = [f1, f2]"
  using assms by (simp add: mergeSimilarFeatures_def)

lemma scanRemaining_pivot_no_tokens:
  assumes "normalize_str (title current) = []"
  shows "scanRemaining dateParse defaultSimilarityThreshold current fs = (current, fs)"
proof (induction fs)
  case Nil
  show ?case by simp
next
  case (Cons candidate fs)
  have "featureSimilarity current candidate < defaultSimilarityThreshold"
    by (rule featureSimilarity_no_tokens_apart) (simp add: assms)
  then have "\<not> featureSimilarity current candidate \<ge> defaultSimilarityThreshold"
    by simp
  with Cons show ?case by simp
qed

lemma scanRemaining_keeps_no_tokens:
  assumes "normalize_str (title current) \<noteq> []"
  shows "normalize_str (title (fst (scanRemaining dateParse defaultSimilarityThreshold current fs))) \<noteq> []
    \<and> filter (\<lambda>f. normalize_str (title f) = [])
         (snd (scanRemaining dateParse defaultSimilarityThreshold current fs))
       = filter (\<lambda>f. normalize_str (title f) = []) fs"
  using assms
proof (induction fs arbitrary: current)
  case Nil
  then show ?case by simp
next
  case (Cons candidate fs)
  show ?case
  proof (cases "featureSimilarity current candidate \<ge> defaultSimilarityThreshold")
    case True
    have cand: "normalize_str (title candidate) \<noteq> []"
    proof
      assume "normalize_str (title candidate) = []"
      then have "featureSimilarity current candidate < defaultSimilarityThreshold"
        by (intro featureSimilarity_no_tokens_apart disjI2)
      with True show False by simp
    qed
    then have "normalize_str (title (mergeFeatures dateParse current candidate)) \<noteq> []"
      using Cons.prems by (simp add: mergeFeatures_base)
    from Cons.IH [OF this] True cand show ?thesis by simp
  next
    case False
    with Cons.IH [OF Cons.prems] show ?thesis by (simp add: case_prod_beta)
  qed
qed

lemma mergeLoop_keeps_no_tokens:
  "filter (\<lambda>f. normalize_str (title f) = []) (mergeLoop dateParse defaultSimilarityThreshold fs)
   = filter (\<lambda>f. normalize_str (title f) = []) fs"
proof (induction dateParse defaultSimilarityThreshold fs rule: mergeLoop.induct)
  case (1 dateParse)
  show ?case by simp
next
  case (2 dateParse first remaining)
  show ?case
  proof (cases "normalize_str (title first) = []")
    case True
    then have scan: "scanRemaining dateParse defaultSimilarityThreshold first remaining
        = (first, remaining)"
      by (rule scanRemaining_pivot_no_tokens)
    with "2" [of "(first, remaining)" first remaining] True show ?thesis by simp
  next
    case False
    obtain current remaining' where
      scan: "scanRemaining dateParse defaultSimilarityThreshold first remaining
        = (current, remaining')"
      by (cases "scanRemaining dateParse defaultSimilarityThreshold first remaining")
    from scanRemaining_keeps_no_tokens [OF False, of dateParse remaining] scan
    have "normalize_str (title current) \<noteq> []"
      and "filter (\<lambda>f. normalize_str (title f) = []) remaining'
           = filter (\<lambda>f. normalize_str (title f) = []) remaining"
      by simp_all
    with "2" [of "(current, remaining')" current remaining'] scan False
    show ?thesis by simp
  qed
qed

lemma mergeSimilarFeatures_keeps_no_tokens:
  "filter (\<lambda>f. normalize_str (title f) = [])
     (mergeSimilarFeatures dateParse fs defaultSimilarityThreshold)
   = filter (\<lambda>f. normalize_str (title f) = []) fs"
  by (simp add: mergeSimilarFeatures_def mergeLoop_keeps_no_tokens)

text \<open>
  C2: the similarity of two features is 0 when their projects or their types differ, and
  otherwise the code's sum of the token Jaccard similarity of the titles times 0.6 and
  the edit-distance similarity times 0.4, in the arithmetic of numbers. The token Jaccard
  similarity is that of the token sets of the two titles (lower-cased, punctuation
  replaced by spaces, the words longer than 2 characters): the size of the intersection
  over the size of the union. The edit-distance similarity is 1 minus the Levenshtein
  distance of the lower-cased titles over the larger of the two title lengths (and 1 for
  two empty titles, where the quotient has no value). The list of tokens the code builds
  has the token set as its elements, and the matrix that \<^verbatim>\<open>levenshteinDistance\<close>
  fills computes the edit distance of its two arguments. Two features whose types differ
  have similarity 0, and no positive threshold merges them.
\<close>

theorem featureSimilarity_blend:
  "featureSimilarity f1 f2 =
     (if project f1 \<noteq> project f2 \<or> type f1 \<noteq> type f2 then 0
      else num_add
             (num_mul (tokenJaccard (title f1) (title f2)) (fl 0.6))
             (num_mul
                (if title f1 = [] \<and> title f2 = [] then 1
                 else num_sub 1
                        (num_div
                           (of_nat (levenshteinDistance (toLowerCase (title f1))
                                      (toLowerCase (title f2))))
                           (of_nat (max (length (title f1)) (length (title f2))))))
                (fl 0.4)))
   \<and> set (normalize_str s) = titleTokens s
   \<and> levenshteinDistance s t = prefixDistance s t (length s) (length t)
   \<and> (type f1 \<noteq> type f2 \<longrightarrow>
        featureSimilarity f1 f2 = 0
        \<and> (\<forall>similarityThreshold. 0 < similarityThreshold \<longrightarrow>
              mergeSimilarFeatures dateParse [f1, f2] similarityThreshold = [f1, f2]))"
proof -
  have "featureSimilarity f1 f2 =
     (if project f1 \<noteq> project f2 \<or> type f1 \<noteq> type f2 then 0
      else num_add
             (num_mul (tokenJaccard (title f1) (title f2)) (fl 0.6))
             (num_mul
                (if title f1 = [] \<and> title f2 = [] then 1
                 else num_sub 1
                        (num_div
                           (of_nat (levenshteinDistance (toLowerCase (title f1))
                                      (toLowerCase (title f2))))
                           (of_nat (max (length (title f1)) (length (title f2))))))
                (fl 0.4)))"
  proof -
    have "featureSimilarity f1 f2 =
       (if project f1 \<noteq> project f2 \<or> type f1 \<noteq> type f2 then 0
        else num_add (num_mul (calculateSimilarity (title f1) (title f2)) (fl 0.6))
               (num_mul (levenshteinSimilarity (title f1) (title f2)) (fl 0.4)))"
      unfolding featureSimilarity_def Let_def by simp
    then show ?thesis
      by (simp only: calculateSimilarity_tokenJaccard levenshteinSimilarity_formula)
  qed
  moreover have "mergeSimilarFeatures dateParse [f1, f2] similarityThreshold = [f1, f2]"
    if "type f1 \<noteq> type f2" "0 < similarityThreshold" for similarityThreshold
    using that by (intro mergeSimilarFeatures_pair_apart) (simp add: featureSimilarity_mismatch)
  moreover have "featureSimilarity f1 f2 = 0" if "type f1 \<noteq> type f2"
    using that by (simp add: featureSimilarity_mismatch)
  moreover note levenshteinDistance_prefixDistance [of s t]
  moreover note normalize_str_titleTokens [of s]
  ultimately show ?thesis by blast
qed

theorem featureSimilarity_blend_witness:
  "type exportButton \<noteq> type (exportButton\<lparr>type := Bugfix\<rparr>)
   \<and> (0 :: rat) < defaultSimilarityThreshold
   \<and> featureSimilarity exportButton (exportButton\<lparr>type := Bugfix\<rparr>) = 0
   \<and> mergeSimilarFeatures isoDateParse [exportButton, exportButton\<lparr>type := Bugfix\<rparr>]
        defaultSimilarityThreshold
      = [exportButton, exportButton\<lparr>type := Bugfix\<rparr>]
   \<and> titleTokens ''Add export button'' = {''add'', ''export'', ''button''}"
proof -
  have t: "type exportButton \<noteq> type (exportButton\<lparr>type := Bugfix\<rparr>)"
    by (simp add: exportButton_def)
  have p: "(0 :: rat) < defaultSimilarityThreshold"
    by (simp add: defaultSimilarityThreshold_def)
  have n: "set (normalize_str ''Add export button'') = {''add'', ''export'', ''button''}"
    by code_simp
  note blend = featureSimilarity_blend
    [of exportButton "exportButton\<lparr>type := Bugfix\<rparr>" "''Add export button''" "''sitting''"
      isoDateParse]
  from blend have "set (normalize_str ''Add export button'') = titleTokens ''Add export button''"
    by (rule conjunct1 [OF conjunct2])
  with n have tokens: "titleTokens ''Add export button'' = {''add'', ''export'', ''button''}"
    by (simp only:)
  from blend t have "featureSimilarity exportButton (exportButton\<lparr>type := Bugfix\<rparr>) = 0"
    and "\<forall>similarityThreshold. 0 < similarityThreshold \<longrightarrow>
          mergeSimilarFeatures isoDateParse [exportButton, exportButton\<lparr>type := Bugfix\<rparr>]
            similarityThreshold
          = [exportButton, exportButton\<lparr>type := Bugfix\<rparr>]"
    by blast+
  with t p tokens show ?thesis by blast
qed

text \<open>
  C10: when the titles of two features both have an empty token set, the token Jaccard
  component is 0 and the similarity is at most 0.4, the number that the code writes
  \<^verbatim>\<open>0.4\<close> (the double nearest to two fifths, \<open>3602879701896397 / 2 ^ 53\<close>), which
  is below the default threshold 0.5; so the default threshold does not
  merge the two, and in any list \<^verbatim>\<open>mergeSimilarFeatures\<close> with the default threshold
  returns the features with an empty token set as they are, in their order.
\<close>

theorem featureSimilarity_empty_tokens:
  assumes "normalize_str (title f1) = []" and "normalize_str (title f2) = []"
  shows "titleTokens (title f1) = {} \<and> titleTokens (title f2) = {}
    \<and> calculateSimilarity (title f1) (title f2) = 0
    \<and> tokenJaccard (title f1) (title f2) = 0
    \<and> featureSimilarity f1 f2 \<le> fl 0.4
    \<and> fl 0.4 = 3602879701896397 / 9007199254740992
    \<and> fl 0.4 < defaultSimilarityThreshold
    \<and> featureSimilarity f1 f2 < defaultSimilarityThreshold
    \<and> mergeSimilarFeatures dateParse [f1, f2] defaultSimilarityThreshold = [f1, f2]
    \<and> (\<forall>fs. filter (\<lambda>f. normalize_str (title f) = [])
               (mergeSimilarFeatures dateParse fs defaultSimilarityThreshold)
             = filter (\<lambda>f. normalize_str (title f) = []) fs)"
proof -
  have tokens: "titleTokens (title f1) = {}" "titleTokens (title f2) = {}"
    using assms by (simp_all add: normalize_str_empty)
  have zero: "calculateSimilarity (title f1) (title f2) = 0"
    using assms by (simp add: calculateSimilarity_no_tokens)
  then have jaccard: "tokenJaccard (title f1) (title f2) = 0"
    by (simp only: calculateSimilarity_tokenJaccard)
  have low: "featureSimilarity f1 f2 \<le> fl 0.4"
    by (rule featureSimilarity_no_tokens) (simp add: assms)
  have apart: "featureSimilarity f1 f2 < defaultSimilarityThreshold"
    by (rule featureSimilarity_no_tokens_apart) (simp add: assms)
  then have pair: "mergeSimilarFeatures dateParse [f1, f2] defaultSimilarityThreshold = [f1, f2]"
    by (rule mergeSimilarFeatures_pair_apart)
  have keep: "filter (\<lambda>f. normalize_str (title f) = [])
               (mergeSimilarFeatures dateParse fs defaultSimilarityThreshold)
             = filter (\<lambda>f. normalize_str (title f) = []) fs" for fs
    by (rule mergeSimilarFeatures_keeps_no_tokens)
  from tokens zero jaccard low fl_two_fifths_value fl_two_fifths_below_threshold apart pair keep
  show ?thesis by blast
qed

theorem featureSimilarity_empty_tokens_witness:
  "normalize_str (title (exportButton\<lparr>title := ''UI''\<rparr>)) = []
   \<and> normalize_str (title (exportFeature\<lparr>title := ''CI''\<rparr>)) = []
   \<and> featureSimilarity (exportButton\<lparr>title := ''UI''\<rparr>) (exportFeature\<lparr>title := ''CI''\<rparr>)
       \<le> fl 0.4
   \<and> featureSimilarity (exportButton\<lparr>title := ''UI''\<rparr>) (exportFeature\<lparr>title := ''CI''\<rparr>)
       < defaultSimilarityThreshold
   \<and> mergeSimilarFeatures isoDateParse
        [exportButton\<lparr>title := ''UI''\<rparr>, exportFeature\<lparr>title := ''CI''\<rparr>]
        defaultSimilarityThreshold
      = [exportButton\<lparr>title := ''UI''\<rparr>, exportFeature\<lparr>title := ''CI''\<rparr>]"
proof -
  have a: "normalize_str (title (exportButton\<lparr>title := ''UI''\<rparr>)) = []" by code_simp
  have b: "normalize_str (title (exportFeature\<lparr>title := ''CI''\<rparr>)) = []" by code_simp
  from featureSimilarity_empty_tokens [OF a b, of isoDateParse] a b
  show ?thesis by blast
qed

subsection \<open>\<^verbatim>\<open>isDateInRange\<close>\<close>

lemma isDateInRange_valid:
  assumes "dateParse dateStr = Some d" "dateParse since = Some s" "dateParse until = Some u"
  shows "isDateInRange dateParse tza dateStr since until \<longleftrightarrow>
    s \<le> d \<and> d \<le> ((u + tza) div msPerDay) * msPerDay + 86399999 - tza"
  using assms by (simp add: isDateInRange_def dateLessEq_def setHours_def Let_def)

lemma isDateInRange_invalid:
  "dateParse dateStr = None \<or> dateParse since = None \<or> dateParse until = None
    \<Longrightarrow> \<not> isDateInRange dateParse tza dateStr since until"
  by (auto simp: isDateInRange_def dateLessEq_def setHours_def Let_def split: option.splits)

lemma isDateInRange_UTC:
  assumes "dateParse dateStr = Some d" "dateParse since = Some s"
    "dateParse until = Some (day * msPerDay)"
  shows "isDateInRange dateParse 0 dateStr since until \<longleftrightarrow>
    s \<le> d \<and> d < (day + 1) * msPerDay"
proof -
  have "(day * msPerDay + 0) div msPerDay = day" by (simp add: msPerDay_def)
  with isDateInRange_valid [OF assms, of 0] show ?thesis
    by (auto simp: msPerDay_def)
qed

text \<open>
  On a host in UTC, the last second of the \<^verbatim>\<open>until\<close> day is in range and the first
  instant of the next day is not.
\<close>

lemma isDateInRange_UTC_until_day:
  "isDateInRange isoDateParse 0 ''2024-01-31T23:59:59Z'' ''2024-01-01'' ''2024-01-31''
   \<and> \<not> isDateInRange isoDateParse 0 ''2024-02-01T00:00:00Z'' ''2024-01-01'' ''2024-01-31''"
  by code_simp

text \<open>
  C8: the upper bound is \<^verbatim>\<open>until\<close> with the hours of its local day set to
  23:59:59.999, and \<^verbatim>\<open>until\<close> is a calendar date read as midnight UTC. On a host
  five hours west of UTC that instant lies in the evening of the local day before, so the
  bound is 04:59:59.999 UTC of the \<^verbatim>\<open>until\<close> day, and a pull request merged at
  23:59:59 UTC of the \<^verbatim>\<open>until\<close> day is out of range.
\<close>

theorem isDateInRange_until_day_west_of_UTC:
  "isoDateParse ''2024-01-31'' = Some 1706659200000
   \<and> isoDateParse ''2024-01-31T23:59:59Z'' = Some 1706745599000
   \<and> setHours (- 18000000) (isoDateParse ''2024-01-31'') 23 59 59 999 = Some 1706677199999
   \<and> \<not> isDateInRange isoDateParse (- 18000000)
         ''2024-01-31T23:59:59Z'' ''2024-01-01'' ''2024-01-31''"
  by code_simp

subsection \<open>The key of a pull request\<close>

lemma digitValue_digitChar: "d < 10 \<Longrightarrow> digitValue (digitChar d) = int d"
proof -
  assume "d < 10"
  have "(of_char (char_of (48 + d)) :: int) = int (of_char (char_of (48 + d)))"
    by (simp only: of_nat_of_char)
  also have "\<dots> = int (48 + d)" using \<open>d < 10\<close> by simp
  finally show ?thesis by (simp add: digitValue_def digitChar_def)
qed

lemma int_div_mod_10: "10 * int (n div 10) + int (n mod 10) = int n"
proof -
  have "int (10 * (n div 10) + n mod 10) = int n" by simp
  then show ?thesis by (simp only: of_nat_add of_nat_mult of_nat_numeral)
qed

lemma decimalValue_snoc: "decimalValue (ds @ [c]) = 10 * decimalValue ds + digitValue c"
  by (simp add: decimalValue_def)

lemma decimalValue_natToString: "decimalValue (natToString n) = int n"
proof (induction n rule: natToString.induct)
  case (1 n)
  show ?case
  proof (cases "n < 10")
    case True
    then show ?thesis
      by (subst natToString.simps) (simp add: decimalValue_def digitValue_digitChar)
  next
    case False
    with 1 show ?thesis
      by (subst natToString.simps)
        (simp add: decimalValue_snoc digitValue_digitChar int_div_mod_10)
  qed
qed

lemma natToString_digits: "c \<in> set (natToString n) \<Longrightarrow> isDigitChar c"
proof (induction n rule: natToString.induct)
  case (1 n)
  have dig: "isDigitChar (digitChar d)" if "d < 10" for d
    using that by (simp add: isDigitChar_def digitChar_def)
  show ?case
  proof (cases "n < 10")
    case True
    with 1(2) dig show ?thesis by (subst (asm) natToString.simps) auto
  next
    case False
    with 1 dig [of "n mod 10"] show ?thesis by (subst (asm) natToString.simps) auto
  qed
qed

lemma natToString_inj:
  assumes "natToString a = natToString b"
  shows "a = b"
proof -
  have "int a = decimalValue (natToString a)" by (simp only: decimalValue_natToString)
  also have "\<dots> = decimalValue (natToString b)" by (simp only: assms)
  also have "\<dots> = int b" by (simp only: decimalValue_natToString)
  finally show ?thesis by simp
qed

lemma natToString_nonempty: "natToString n \<noteq> []"
  by (subst natToString.simps) simp

lemma takeWhile_until: "c \<notin> set xs \<Longrightarrow> takeWhile (\<lambda>x. x \<noteq> c) (xs @ c # ys) = xs"
  by (induction xs) auto

lemma hash_split:
  assumes "CHR ''#'' \<notin> set n1" "CHR ''#'' \<notin> set n2"
    and eq: "r1 @ ''#'' @ n1 = r2 @ ''#'' @ n2"
  shows "r1 = r2 \<and> n1 = n2"
proof -
  let ?P = "\<lambda>c. c \<noteq> CHR ''#''"
  have "rev (r1 @ ''#'' @ n1) = rev (r2 @ ''#'' @ n2)" using eq by simp
  then have e: "rev n1 @ CHR ''#'' # rev r1 = rev n2 @ CHR ''#'' # rev r2" by simp
  have "takeWhile ?P (rev n1 @ CHR ''#'' # rev r1) = rev n1"
    using assms(1) by (simp add: takeWhile_until)
  moreover have "takeWhile ?P (rev n2 @ CHR ''#'' # rev r2) = rev n2"
    using assms(2) by (simp add: takeWhile_until)
  ultimately have "rev n1 = rev n2" using e by simp
  then have n: "n1 = n2" by simp
  with eq show ?thesis by simp
qed

lemma isDigitChar_not_special:
  "isDigitChar c \<Longrightarrow> c \<noteq> CHR ''#'' \<and> c \<noteq> CHR ''-''"
  by (auto simp: isDigitChar_def)

lemma numberToString_no_hash: "CHR ''#'' \<notin> set (numberToString i)"
  using natToString_digits isDigitChar_not_special
  by (auto simp: numberToString_def)

lemma numberToString_inj:
  assumes "numberToString i = numberToString j"
  shows "i = j"
proof -
  have nodash: "hd (natToString n) \<noteq> CHR ''-''" for n
    using natToString_digits [of "hd (natToString n)" n] natToString_nonempty [of n]
      isDigitChar_not_special by auto
  have neq: "CHR ''-'' # natToString a \<noteq> natToString b" for a b
    using nodash [of b] by (metis list.sel(1))
  show ?thesis
  proof (cases "i < 0"; cases "j < 0")
    assume "i < 0" "j < 0"
    with assms have "nat (- i) = nat (- j)"
      by (auto simp: numberToString_def dest: natToString_inj)
    with \<open>i < 0\<close> \<open>j < 0\<close> show ?thesis by simp
  next
    assume "i < 0" "\<not> j < 0"
    with assms neq show ?thesis by (simp add: numberToString_def)
  next
    assume "\<not> i < 0" "j < 0"
    with assms neq [of "nat (- j)" "nat i"] show ?thesis by (simp add: numberToString_def)
  next
    assume "\<not> i < 0" "\<not> j < 0"
    with assms have "nat i = nat j"
      by (auto simp: numberToString_def dest: natToString_inj)
    with \<open>\<not> i < 0\<close> \<open>\<not> j < 0\<close> show ?thesis by simp
  qed
qed

lemma prKey_eq_iff:
  "prKey a = prKey b \<longleftrightarrow> repoFullName a = repoFullName b \<and> number a = number b"
proof
  assume "prKey a = prKey b"
  then have "repoFullName a = repoFullName b \<and> numberToString (number a) = numberToString (number b)"
    unfolding prKey_def by (intro hash_split numberToString_no_hash)
  then show "repoFullName a = repoFullName b \<and> number a = number b"
    by (auto dest: numberToString_inj)
next
  assume "repoFullName a = repoFullName b \<and> number a = number b"
  then show "prKey a = prKey b" by (simp add: prKey_def)
qed

subsection \<open>Dedup and sort of the discovered pull requests\<close>

lemma uniquePRs_step_eq:
  "uniquePRs_step m pr = (if prKey pr \<in> fst ` set m then m else m @ [(prKey pr, pr)])"
  by (simp add: uniquePRs_step_def Map_has_def Map_set_def Let_def)

lemma foldl_uniquePRs_step_keys:
  "fst ` set (foldl uniquePRs_step acc ps) = fst ` set acc \<union> prKey ` set ps"
  by (induction ps arbitrary: acc) (auto simp: uniquePRs_step_eq)

lemma foldl_uniquePRs_step_distinct:
  "distinct (map fst acc) \<Longrightarrow> distinct (map fst (foldl uniquePRs_step acc ps))"
  by (induction ps arbitrary: acc) (auto simp: uniquePRs_step_eq)

lemma foldl_uniquePRs_step_first:
  "(k, v) \<in> set (foldl uniquePRs_step acc ps) \<Longrightarrow>
     (k, v) \<in> set acc \<or> (k \<notin> fst ` set acc \<and> k = prKey v \<and> find (\<lambda>q. prKey q = k) ps = Some v)"
proof (induction ps arbitrary: acc)
  case Nil
  then show ?case by simp
next
  case (Cons p ps)
  show ?case
  proof (cases "prKey p \<in> fst ` set acc")
    case True
    then have "uniquePRs_step acc p = acc" by (simp add: uniquePRs_step_eq)
    with Cons.prems have "(k, v) \<in> set (foldl uniquePRs_step acc ps)" by simp
    from Cons.IH [OF this] True show ?thesis by auto
  next
    case False
    then have "uniquePRs_step acc p = acc @ [(prKey p, p)]" by (simp add: uniquePRs_step_eq)
    with Cons.prems have "(k, v) \<in> set (foldl uniquePRs_step (acc @ [(prKey p, p)]) ps)"
      by simp
    from Cons.IH [OF this] False show ?thesis by auto
  qed
qed

lemma uniquePRs_first:
  assumes "pr \<in> set (Map_values (uniquePRs allPRs))"
  shows "find (\<lambda>q. prKey q = prKey pr) allPRs = Some pr"
proof -
  from assms obtain k where "(k, pr) \<in> set (uniquePRs allPRs)"
    by (auto simp: Map_values_def)
  then show ?thesis
    using foldl_uniquePRs_step_first [of k pr "[]" allPRs] by (auto simp: uniquePRs_def)
qed

lemma uniquePRs_keys_distinct: "distinct (map prKey (Map_values (uniquePRs allPRs)))"
proof -
  have d: "distinct (map fst (uniquePRs allPRs))"
    by (simp add: uniquePRs_def foldl_uniquePRs_step_distinct)
  have "map fst (uniquePRs allPRs) = map (prKey \<circ> snd) (uniquePRs allPRs)"
  proof (rule map_cong [OF refl])
    fix e assume "e \<in> set (uniquePRs allPRs)"
    then have "(fst e, snd e) \<in> set (foldl uniquePRs_step [] allPRs)"
      by (simp add: uniquePRs_def)
    from foldl_uniquePRs_step_first [OF this] show "fst e = (prKey \<circ> snd) e" by simp
  qed
  with d show ?thesis by (simp add: Map_values_def)
qed

lemma uniquePRs_keys: "prKey ` set (Map_values (uniquePRs allPRs)) = prKey ` set allPRs"
proof -
  have "fst ` set (uniquePRs allPRs) = prKey ` set allPRs"
    by (simp add: uniquePRs_def foldl_uniquePRs_step_keys)
  moreover have "fst ` set (uniquePRs allPRs) = prKey ` set (Map_values (uniquePRs allPRs))"
  proof -
    have "fst e = prKey (snd e)" if "e \<in> set (uniquePRs allPRs)" for e
    proof -
      from that have "(fst e, snd e) \<in> set (foldl uniquePRs_step [] allPRs)"
        by (simp add: uniquePRs_def)
      from foldl_uniquePRs_step_first [OF this] show ?thesis by simp
    qed
    then show ?thesis by (force simp: Map_values_def image_iff)
  qed
  ultimately show ?thesis by simp
qed

lemma set_sort_insert: "set (sort_insert cmp x ys) = insert x (set ys)"
  by (induction ys) auto

lemma set_js_sort: "set (js_sort cmp xs) = set xs"
  by (induction xs) (auto simp: js_sort_def set_sort_insert)

lemma distinct_map_sort_insert:
  "distinct (map f (sort_insert cmp x ys)) \<longleftrightarrow> f x \<notin> f ` set ys \<and> distinct (map f ys)"
  by (induction ys) (auto simp: set_sort_insert)

lemma distinct_map_js_sort: "distinct (map f (js_sort cmp xs)) \<longleftrightarrow> distinct (map f xs)"
proof (induction xs)
  case Nil
  show ?case by (simp add: js_sort_def)
next
  case (Cons x xs)
  have "js_sort cmp (x # xs) = sort_insert cmp x (js_sort cmp xs)" by (simp add: js_sort_def)
  with Cons show ?case by (simp add: distinct_map_sort_insert set_js_sort)
qed

lemma sort_insert_agrees:
  assumes "\<forall>b \<in> set ys. cmp x b \<le> 0 \<longleftrightarrow> f x \<le> f b"
  shows "sort_insert cmp x ys = insort_key f x ys"
  using assms by (induction ys) auto

lemma js_sort_agrees:
  assumes "\<forall>a \<in> set xs. \<forall>b \<in> set xs. cmp a b \<le> 0 \<longleftrightarrow> f a \<le> f b"
  shows "js_sort cmp xs = sort_key f xs"
  using assms
proof (induction xs)
  case Nil
  show ?case by (simp add: js_sort_def)
next
  case (Cons x xs)
  then have ih: "js_sort cmp xs = sort_key f xs" by simp
  have "js_sort cmp (x # xs) = sort_insert cmp x (js_sort cmp xs)" by (simp add: js_sort_def)
  also have "\<dots> = insort_key f x (sort_key f xs)"
    unfolding ih using Cons.prems by (intro sort_insert_agrees) simp
  finally show ?case by simp
qed

lemma uniquePRs_subset: "set (Map_values (uniquePRs allPRs)) \<subseteq> set allPRs"
proof
  fix pr assume "pr \<in> set (Map_values (uniquePRs allPRs))"
  then have "find (\<lambda>q. prKey q = prKey pr) allPRs = Some pr" by (rule uniquePRs_first)
  then show "pr \<in> set allPRs" by (auto simp: find_Some_iff)
qed

lemma dedupAndSort_sorted:
  assumes "\<forall>pr \<in> set allPRs. dateParse (mergedAt pr) \<noteq> None"
  shows "sorted (map (\<lambda>pr. the (dateParse (mergedAt pr))) (dedupAndSort dateParse allPRs))"
proof -
  let ?t = "\<lambda>pr. the (dateParse (mergedAt pr))"
  let ?u = "Map_values (uniquePRs allPRs)"
  have "mergedAtCompare dateParse a b \<le> 0 \<longleftrightarrow> ?t a \<le> ?t b"
    if "a \<in> set ?u" "b \<in> set ?u" for a b
  proof -
    from that uniquePRs_subset [of allPRs] assms
    obtain x y where "dateParse (mergedAt a) = Some x" "dateParse (mergedAt b) = Some y"
      by (meson not_Some_eq subsetD)
    then show ?thesis by (simp add: mergedAtCompare_def)
  qed
  then have "js_sort (mergedAtCompare dateParse) ?u = sort_key ?t ?u"
    by (intro js_sort_agrees) blast
  then show ?thesis by (simp add: dedupAndSort_def)
qed

text \<open>
  C3: \<^verbatim>\<open>fetchAllMergedPRs\<close> passes the concatenated outputs of its strategies through
  the dedup and the sort. For every such list, the result has at most one entry for each
  pair of \<^verbatim>\<open>repoFullName\<close> and \<^verbatim>\<open>number\<close>; each entry is the first pull request of
  the input with its pair, and every pair of the input is present; and when every
  \<^verbatim>\<open>mergedAt\<close> is a valid date the result is in ascending order of merge time.
\<close>

theorem fetchAllMergedPRs_dedup_sorted:
  "fetchAllMergedPRs dateParse options listMergedPRs searchPRs orgPRs =
     dedupAndSort dateParse
       (if nonEmpty_opt (repos options) then fetchPRsFromSpecificRepos options listMergedPRs
        else if skipOrgScan options \<noteq> Some True then searchPRs @ orgPRs
        else searchPRs)
   \<and> distinct (map (\<lambda>pr. (repoFullName pr, number pr)) (dedupAndSort dateParse allPRs))
   \<and> (\<forall>pr \<in> set (dedupAndSort dateParse allPRs).
         find (\<lambda>q. repoFullName q = repoFullName pr \<and> number q = number pr) allPRs = Some pr)
   \<and> (\<lambda>pr. (repoFullName pr, number pr)) ` set (dedupAndSort dateParse allPRs)
       = (\<lambda>pr. (repoFullName pr, number pr)) ` set allPRs
   \<and> ((\<forall>pr \<in> set allPRs. dateParse (mergedAt pr) \<noteq> None) \<longrightarrow>
         sorted (map (\<lambda>pr. the (dateParse (mergedAt pr))) (dedupAndSort dateParse allPRs)))"
proof -
  let ?r = "dedupAndSort dateParse allPRs"
  let ?u = "Map_values (uniquePRs allPRs)"
  let ?pair = "\<lambda>pr. (repoFullName pr, number pr)"
  have set_r: "set ?r = set ?u" by (simp add: dedupAndSort_def set_js_sort)
  have key_pair: "prKey a = prKey b \<longleftrightarrow> ?pair a = ?pair b" for a b
    by (simp add: prKey_eq_iff)
  have "distinct (map prKey ?r)"
    by (simp add: dedupAndSort_def distinct_map_js_sort uniquePRs_keys_distinct)
  then have d: "distinct (map ?pair ?r)"
    by (simp add: distinct_map inj_on_def key_pair)
  have f: "find (\<lambda>q. repoFullName q = repoFullName pr \<and> number q = number pr) allPRs = Some pr"
    if "pr \<in> set ?r" for pr
  proof -
    from that set_r have "find (\<lambda>q. prKey q = prKey pr) allPRs = Some pr"
      by (simp add: uniquePRs_first)
    then show ?thesis by (simp add: prKey_eq_iff)
  qed
  have i: "?pair ` set ?r = ?pair ` set allPRs"
  proof -
    have "prKey ` set ?r = prKey ` set allPRs" unfolding set_r by (rule uniquePRs_keys)
    then have "\<And>a. a \<in> set ?r \<Longrightarrow> \<exists>b \<in> set allPRs. prKey a = prKey b"
      and "\<And>b. b \<in> set allPRs \<Longrightarrow> \<exists>a \<in> set ?r. prKey a = prKey b"
      by (auto simp: image_iff set_eq_iff) metis+
    then show ?thesis unfolding key_pair by (auto simp: image_iff) metis+
  qed
  have "fetchAllMergedPRs dateParse options listMergedPRs searchPRs orgPRs =
     dedupAndSort dateParse
       (if nonEmpty_opt (repos options) then fetchPRsFromSpecificRepos options listMergedPRs
        else if skipOrgScan options \<noteq> Some True then searchPRs @ orgPRs
        else searchPRs)"
    by (simp add: fetchAllMergedPRs_def Let_def)
  with d f i dedupAndSort_sorted [of allPRs dateParse] show ?thesis by blast
qed

theorem fetchAllMergedPRs_dedup_sorted_witness:
  "map (\<lambda>pr. isoDateParse (mergedAt pr)) examplePRs
     = [Some 1710496800000, Some 1709287200000, Some 1710496800000]
   \<and> dedupAndSort isoDateParse examplePRs = [examplePRs ! 1, examplePRs ! 0]
   \<and> sorted (map (\<lambda>pr. the (isoDateParse (mergedAt pr))) (dedupAndSort isoDateParse examplePRs))
   \<and> find (\<lambda>q. repoFullName q = repoFullName (examplePRs ! 0)
                 \<and> number q = number (examplePRs ! 0)) examplePRs
       = Some (examplePRs ! 0)"
proof -
  have m: "map (\<lambda>pr. isoDateParse (mergedAt pr)) examplePRs
     = [Some 1710496800000, Some 1709287200000, Some 1710496800000]"
    by code_simp
  have v: "\<forall>pr \<in> set examplePRs. isoDateParse (mergedAt pr) \<noteq> None"
  proof
    fix pr assume "pr \<in> set examplePRs"
    then have "isoDateParse (mergedAt pr) \<in> set (map (\<lambda>pr. isoDateParse (mergedAt pr)) examplePRs)"
      by simp
    then show "isoDateParse (mergedAt pr) \<noteq> None" unfolding m by auto
  qed
  have e: "dedupAndSort isoDateParse examplePRs = [examplePRs ! 1, examplePRs ! 0]" by code_simp
  have "examplePRs ! 0 \<in> set (dedupAndSort isoDateParse examplePRs)" unfolding e by simp
  with fetchAllMergedPRs_dedup_sorted [of isoDateParse _ _ _ _ examplePRs] v m e
  show ?thesis by blast
qed

subsection \<open>The repository filters\<close>

lemma shouldIncludeRepo_iff:
  "shouldIncludeRepo options fullName username \<longleftrightarrow>
     \<not> includes_opt (excludeRepos options) fullName
     \<and> (scope options = Some Personal \<longrightarrow>
          toLowerCase (ownerPart fullName) = toLowerCase username)
     \<and> (scope options = Some Orgs \<longrightarrow>
          toLowerCase (ownerPart fullName) \<noteq> toLowerCase username)
     \<and> (if nonEmpty_opt (repos options) then includes_opt (repos options) fullName
         else if nonEmpty_opt (orgs options)
              then ownerPart fullName \<noteq> [] \<and> includes_opt (orgs options) (ownerPart fullName)
              else True)"
  by (auto simp: shouldIncludeRepo_def isOrgRepo_def Let_def)

lemma foldl_specific_repos:
  "foldl (\<lambda>allPRs fullName.
            if excluded fullName then allPRs
            else (case listMergedPRs fullName of
                    None \<Rightarrow> allPRs
                  | Some found \<Rightarrow> if length found > 0 then allPRs @ found else allPRs))
         acc rs
   = acc @ concat (map (\<lambda>fullName. case listMergedPRs fullName of None \<Rightarrow> [] | Some found \<Rightarrow> found)
                    (filter (\<lambda>fullName. \<not> excluded fullName) rs))"
  by (induction rs arbitrary: acc) (auto split: option.splits)

lemma fetchPRsFromSpecificRepos_scanned:
  assumes "repos options = Some rs"
  shows "fetchPRsFromSpecificRepos options listMergedPRs
    = concat (map (\<lambda>fullName. case listMergedPRs fullName of None \<Rightarrow> [] | Some found \<Rightarrow> found)
               (filter (\<lambda>fullName. \<not> includes_opt (excludeRepos options) fullName) rs))"
  using assms by (simp add: fetchPRsFromSpecificRepos_def foldl_specific_repos)

lemma fetchPRsFromSpecificRepos_ignores_scope:
  "fetchPRsFromSpecificRepos (options\<lparr>scope := sc\<rparr>) listMergedPRs
   = fetchPRsFromSpecificRepos options listMergedPRs"
  by (simp add: fetchPRsFromSpecificRepos_def split: option.splits)

lemma foldl_scan_repos:
  "foldl (\<lambda>allPRs fullName.
            case listMergedPRs fullName of
              None \<Rightarrow> allPRs
            | Some found \<Rightarrow> if length found > 0 then allPRs @ found else allPRs)
         acc rs
   = acc @ concat (map (\<lambda>r. case listMergedPRs r of None \<Rightarrow> [] | Some found \<Rightarrow> found) rs)"
  by (induction rs arbitrary: acc) (auto split: option.splits)

lemma foldl_org_repos:
  "foldl (\<lambda>allPRs org.
            if length (filter P (listOrgRepositories org)) = 0 then allPRs
            else foldl (\<lambda>allPRs fullName.
                   case listMergedPRs fullName of
                     None \<Rightarrow> allPRs
                   | Some found \<Rightarrow> if length found > 0 then allPRs @ found else allPRs)
                 allPRs (filter P (listOrgRepositories org)))
         acc os
   = acc @ concat (map (\<lambda>r. case listMergedPRs r of None \<Rightarrow> [] | Some found \<Rightarrow> found)
                    (filter P (concat (map listOrgRepositories os))))"
proof -
  define scan where
    "scan = (\<lambda>r. case listMergedPRs r of None \<Rightarrow> [] | Some found \<Rightarrow> found)"
  define F where "F = (\<lambda>allPRs org.
            if length (filter P (listOrgRepositories org)) = 0 then allPRs
            else foldl (\<lambda>allPRs fullName.
                   case listMergedPRs fullName of
                     None \<Rightarrow> allPRs
                   | Some found \<Rightarrow> if length found > 0 then allPRs @ found else allPRs)
                 allPRs (filter P (listOrgRepositories org)))"
  have step: "F acc org = acc @ concat (map scan (filter P (listOrgRepositories org)))"
    for acc org
    unfolding F_def scan_def by (simp add: foldl_scan_repos)
  have "foldl F acc os = acc @ concat (map scan (filter P (concat (map listOrgRepositories os))))"
    by (induction os arbitrary: acc) (simp_all add: step)
  then show ?thesis unfolding F_def scan_def .
qed

lemma fetchPRsFromOrgRepos_scanned:
  assumes "\<not> nonEmpty_opt (repos options)"
  shows "fetchPRsFromOrgRepos options username listMergedPRs userOrgs orgRepos excludeSet
    = (if scope options = Some Personal then []
       else concat (map (\<lambda>r. case listMergedPRs r of None \<Rightarrow> [] | Some found \<Rightarrow> found)
              (filter (\<lambda>r. r \<notin> set excludeSet \<and> shouldIncludeRepo options r username)
                 (concat (map orgRepos
                    (case orgs options of
                       None \<Rightarrow> userOrgs
                     | Some logins \<Rightarrow> if logins = [] then userOrgs else logins))))))"
proof -
  define orgsToCheck where "orgsToCheck =
    (case orgs options of
       None \<Rightarrow> userOrgs
     | Some logins \<Rightarrow> if logins = [] then userOrgs else logins)"
  have o: "(case orgs options of
              None \<Rightarrow> userOrgs
            | Some logins \<Rightarrow> if length logins > 0 then logins else userOrgs) = orgsToCheck"
    by (simp add: orgsToCheck_def split: option.splits)
  have "fetchPRsFromOrgRepos options username listMergedPRs userOrgs orgRepos excludeSet
    = (if scope options = Some Personal then []
       else if nonEmpty_opt (repos options) then []
       else if length orgsToCheck = 0 then []
       else [] @ concat (map (\<lambda>r. case listMergedPRs r of None \<Rightarrow> [] | Some found \<Rightarrow> found)
              (filter (\<lambda>r. r \<notin> set excludeSet \<and> shouldIncludeRepo options r username)
                 (concat (map orgRepos orgsToCheck)))))"
    unfolding fetchPRsFromOrgRepos_def o Let_def foldl_org_repos ..
  then show ?thesis
    unfolding orgsToCheck_def [symmetric]
    using assms by (cases "orgsToCheck = []") simp_all
qed

lemma fetchPRsFromOrgRepos_allow_list:
  "nonEmpty_opt (repos options) \<Longrightarrow>
   fetchPRsFromOrgRepos options username listMergedPRs userOrgs orgRepos excludeSet = []"
  by (simp add: fetchPRsFromOrgRepos_def)

lemma fetchAllMergedPRs_allow_list:
  assumes "repos options = Some rs" "rs \<noteq> []"
  shows "fetchAllMergedPRs dateParse options listMergedPRs searchPRs orgPRs
    = dedupAndSort dateParse
        (concat (map (\<lambda>r. case listMergedPRs r of None \<Rightarrow> [] | Some found \<Rightarrow> found)
                   (filter (\<lambda>r. \<not> includes_opt (excludeRepos options) r) rs)))"
  using assms
  by (simp add: fetchAllMergedPRs_def nonEmpty_opt_def fetchPRsFromSpecificRepos_scanned)

text \<open>
  C4: \<^verbatim>\<open>shouldIncludeRepo\<close> rejects a repository on the exclude-list first; then it
  applies the scope (\<^verbatim>\<open>personal\<close> keeps the repositories whose owner is the username
  up to case, \<^verbatim>\<open>orgs\<close> keeps the others); then a non-empty repository allow-list decides
  by membership, before the organization allow-list is looked at, and otherwise a
  non-empty organization allow-list decides by membership of the owner. The predicate is
  applied by the global search and by the sweep of the organizations, and
  \<^verbatim>\<open>fetchAllMergedPRs\<close> uses these two only when no repository allow-list is set. With
  a non-empty repository allow-list the scope is passed over: whatever the scope, the
  search and the sweep, the result is made from the scan of every listed repository that
  is not on the exclude-list, and the sweep of the organizations returns nothing.
\<close>

theorem shouldIncludeRepo_filter_order:
  "(shouldIncludeRepo options fullName username \<longleftrightarrow>
     \<not> includes_opt (excludeRepos options) fullName
     \<and> (scope options = Some Personal \<longrightarrow>
          toLowerCase (ownerPart fullName) = toLowerCase username)
     \<and> (scope options = Some Orgs \<longrightarrow>
          toLowerCase (ownerPart fullName) \<noteq> toLowerCase username)
     \<and> (if nonEmpty_opt (repos options) then includes_opt (repos options) fullName
         else if nonEmpty_opt (orgs options)
              then ownerPart fullName \<noteq> [] \<and> includes_opt (orgs options) (ownerPart fullName)
              else True))
   \<and> (\<forall>rs. repos options = Some rs \<and> rs \<noteq> [] \<longrightarrow>
        fetchAllMergedPRs dateParse options listMergedPRs searchPRs orgPRs
          = dedupAndSort dateParse (fetchPRsFromSpecificRepos options listMergedPRs)
        \<and> fetchPRsFromSpecificRepos options listMergedPRs
          = concat (map (\<lambda>r. case listMergedPRs r of None \<Rightarrow> [] | Some found \<Rightarrow> found)
                     (filter (\<lambda>r. \<not> includes_opt (excludeRepos options) r) rs))
        \<and> (\<forall>sc. fetchPRsFromSpecificRepos (options\<lparr>scope := sc\<rparr>) listMergedPRs
                  = fetchPRsFromSpecificRepos options listMergedPRs)
        \<and> (\<forall>sc. fetchAllMergedPRs dateParse (options\<lparr>scope := sc\<rparr>) listMergedPRs
                    searchPRs' orgPRs'
                  = fetchAllMergedPRs dateParse options listMergedPRs searchPRs orgPRs)
        \<and> fetchPRsFromOrgRepos options username listMergedPRs userOrgs orgRepos excludeSet
          = [])
   \<and> (\<not> nonEmpty_opt (repos options) \<longrightarrow>
        fetchAllMergedPRs dateParse options listMergedPRs searchPRs orgPRs
          = dedupAndSort dateParse
              (if skipOrgScan options = Some True then searchPRs else searchPRs @ orgPRs)
        \<and> fetchPRsViaGlobalSearch options username found
          = filter (\<lambda>pr. shouldIncludeRepo options (repoFullName pr) username) found
        \<and> fetchPRsFromOrgRepos options username listMergedPRs userOrgs orgRepos excludeSet
          = (if scope options = Some Personal then []
             else concat (map (\<lambda>r. case listMergedPRs r of None \<Rightarrow> [] | Some found \<Rightarrow> found)
                    (filter (\<lambda>r. r \<notin> set excludeSet \<and> shouldIncludeRepo options r username)
                       (concat (map orgRepos
                          (case orgs options of
                             None \<Rightarrow> userOrgs
                           | Some logins \<Rightarrow> if logins = [] then userOrgs else logins)))))))"
proof -
  have specific: "fetchAllMergedPRs dateParse options listMergedPRs searchPRs orgPRs
          = dedupAndSort dateParse (fetchPRsFromSpecificRepos options listMergedPRs)"
    if "repos options = Some rs \<and> rs \<noteq> []" for rs
    using that by (simp add: fetchAllMergedPRs_def nonEmpty_opt_def)
  have scanned: "fetchPRsFromSpecificRepos options listMergedPRs
          = concat (map (\<lambda>r. case listMergedPRs r of None \<Rightarrow> [] | Some found \<Rightarrow> found)
                     (filter (\<lambda>r. \<not> includes_opt (excludeRepos options) r) rs))"
    if "repos options = Some rs \<and> rs \<noteq> []" for rs
    using that by (simp add: fetchPRsFromSpecificRepos_scanned)
  have scope1: "fetchPRsFromSpecificRepos (options\<lparr>scope := sc\<rparr>) listMergedPRs
                  = fetchPRsFromSpecificRepos options listMergedPRs" for sc
    by (rule fetchPRsFromSpecificRepos_ignores_scope)
  have scope2: "fetchAllMergedPRs dateParse (options\<lparr>scope := sc\<rparr>) listMergedPRs
                    searchPRs' orgPRs'
                  = fetchAllMergedPRs dateParse options listMergedPRs searchPRs orgPRs"
    if "repos options = Some rs \<and> rs \<noteq> []" for rs sc
  proof -
    from that have "repos (options\<lparr>scope := sc\<rparr>) = Some rs" "rs \<noteq> []" by simp_all
    then have "fetchAllMergedPRs dateParse (options\<lparr>scope := sc\<rparr>) listMergedPRs
                    searchPRs' orgPRs'
        = dedupAndSort dateParse
            (concat (map (\<lambda>r. case listMergedPRs r of None \<Rightarrow> [] | Some found \<Rightarrow> found)
               (filter (\<lambda>r. \<not> includes_opt (excludeRepos (options\<lparr>scope := sc\<rparr>)) r) rs)))"
      by (rule fetchAllMergedPRs_allow_list)
    moreover from that
    have "fetchAllMergedPRs dateParse options listMergedPRs searchPRs orgPRs
        = dedupAndSort dateParse
            (concat (map (\<lambda>r. case listMergedPRs r of None \<Rightarrow> [] | Some found \<Rightarrow> found)
               (filter (\<lambda>r. \<not> includes_opt (excludeRepos options) r) rs)))"
      by (intro fetchAllMergedPRs_allow_list) simp_all
    ultimately show ?thesis by simp
  qed
  have sweep0: "fetchPRsFromOrgRepos options username listMergedPRs userOrgs orgRepos excludeSet
          = []"
    if "repos options = Some rs \<and> rs \<noteq> []" for rs
    using that by (intro fetchPRsFromOrgRepos_allow_list) (simp add: nonEmpty_opt_def)
  have both: "fetchAllMergedPRs dateParse options listMergedPRs searchPRs orgPRs
          = dedupAndSort dateParse
              (if skipOrgScan options = Some True then searchPRs else searchPRs @ orgPRs)"
    if "\<not> nonEmpty_opt (repos options)"
    using that by (simp add: fetchAllMergedPRs_def)
  have search: "fetchPRsViaGlobalSearch options username found
          = filter (\<lambda>pr. shouldIncludeRepo options (repoFullName pr) username) found"
    by (simp add: fetchPRsViaGlobalSearch_def)
  note sweep = fetchPRsFromOrgRepos_scanned
    [of options username listMergedPRs userOrgs orgRepos excludeSet]
  note iff = shouldIncludeRepo_iff [of options fullName username]
  show ?thesis (is "?predicate \<and> ?allowList \<and> ?noAllowList")
  proof (intro conjI)
    show ?predicate by (rule iff)
    show ?allowList using specific scanned scope1 scope2 sweep0 by blast
    show ?noAllowList using both search sweep by blast
  qed
qed

theorem shouldIncludeRepo_filter_order_witness:
  "repos personalWithAllowList = Some [''acme/app'', ''octocat/site'']
   \<and> [''acme/app'', ''octocat/site''] \<noteq> []
   \<and> scope personalWithAllowList = Some Personal
   \<and> toLowerCase (ownerPart ''acme/app'') \<noteq> toLowerCase ''octocat''
   \<and> fetchPRsFromSpecificRepos personalWithAllowList (\<lambda>r. Some examplePRs) = examplePRs
   \<and> fetchAllMergedPRs isoDateParse personalWithAllowList (\<lambda>r. Some examplePRs) [] []
       = dedupAndSort isoDateParse examplePRs
   \<and> fetchPRsFromOrgRepos personalWithAllowList ''octocat'' (\<lambda>r. Some examplePRs)
       [''acme''] (\<lambda>org. [''acme/app'']) [] = []
   \<and> \<not> nonEmpty_opt (repos orgSweep)
   \<and> fetchPRsFromOrgRepos orgSweep ''octocat'' (\<lambda>r. Some examplePRs)
       [] (\<lambda>org. [''acme/app'', ''acme/legacy'', ''octocat/site'']) [] = examplePRs"
proof -
  have r: "repos personalWithAllowList = Some [''acme/app'', ''octocat/site'']"
    and s: "scope personalWithAllowList = Some Personal"
    and x: "excludeRepos personalWithAllowList = Some [''octocat/site'']"
    by (simp_all add: personalWithAllowList_def)
  have o: "toLowerCase (ownerPart ''acme/app'') \<noteq> toLowerCase ''octocat''" by code_simp
  have c: "concat (map (\<lambda>r. case Some examplePRs of None \<Rightarrow> [] | Some found \<Rightarrow> found)
             (filter (\<lambda>r. \<not> includes_opt (excludeRepos personalWithAllowList) r)
                [''acme/app'', ''octocat/site''])) = examplePRs"
    by (simp add: x includes_opt_def)
  note allowList = shouldIncludeRepo_filter_order
    [where options = personalWithAllowList and fullName = "''acme/app''"
      and username = "''octocat''" and dateParse = isoDateParse
      and listMergedPRs = "\<lambda>r. Some examplePRs" and searchPRs = "[]" and orgPRs = "[]"
      and searchPRs' = "[]" and orgPRs' = "[]" and userOrgs = "[''acme'']"
      and orgRepos = "\<lambda>org. [''acme/app'']" and excludeSet = "[]" and found = "[]"]
  from allowList r
  have a1: "fetchAllMergedPRs isoDateParse personalWithAllowList (\<lambda>r. Some examplePRs) [] []
        = dedupAndSort isoDateParse
            (fetchPRsFromSpecificRepos personalWithAllowList (\<lambda>r. Some examplePRs))"
    and a2: "fetchPRsFromSpecificRepos personalWithAllowList (\<lambda>r. Some examplePRs)
        = concat (map (\<lambda>r. case Some examplePRs of None \<Rightarrow> [] | Some found \<Rightarrow> found)
             (filter (\<lambda>r. \<not> includes_opt (excludeRepos personalWithAllowList) r)
                [''acme/app'', ''octocat/site'']))"
    and a3: "fetchPRsFromOrgRepos personalWithAllowList ''octocat'' (\<lambda>r. Some examplePRs)
       [''acme''] (\<lambda>org. [''acme/app'']) [] = []"
    by blast+
  have n: "\<not> nonEmpty_opt (repos orgSweep)"
    and so: "scope orgSweep \<noteq> Some Personal"
    and og: "orgs orgSweep = Some [''acme'']"
    by (simp_all add: orgSweep_def nonEmpty_opt_def)
  have f: "filter (\<lambda>r. r \<notin> set [] \<and> shouldIncludeRepo orgSweep r ''octocat'')
             [''acme/app'', ''acme/legacy'', ''octocat/site''] = [''acme/app'']"
    by code_simp
  note sweep = shouldIncludeRepo_filter_order
    [where options = orgSweep and fullName = "''acme/app''"
      and username = "''octocat''" and dateParse = isoDateParse
      and listMergedPRs = "\<lambda>r. Some examplePRs" and searchPRs = "[]" and orgPRs = "[]"
      and searchPRs' = "[]" and orgPRs' = "[]" and userOrgs = "[]"
      and orgRepos = "\<lambda>org. [''acme/app'', ''acme/legacy'', ''octocat/site'']"
      and excludeSet = "[]" and found = "[]"]
  from sweep n
  have "fetchPRsFromOrgRepos orgSweep ''octocat'' (\<lambda>r. Some examplePRs)
       [] (\<lambda>org. [''acme/app'', ''acme/legacy'', ''octocat/site'']) []
     = (if scope orgSweep = Some Personal then []
        else concat (map (\<lambda>r. case Some examplePRs of None \<Rightarrow> [] | Some found \<Rightarrow> found)
               (filter (\<lambda>r. r \<notin> set [] \<and> shouldIncludeRepo orgSweep r ''octocat'')
                  (concat (map (\<lambda>org. [''acme/app'', ''acme/legacy'', ''octocat/site''])
                     (case orgs orgSweep of
                        None \<Rightarrow> []
                      | Some logins \<Rightarrow> if logins = [] then [] else logins))))))"
    by blast
  moreover have "(case orgs orgSweep of
                    None \<Rightarrow> []
                  | Some logins \<Rightarrow> if logins = [] then [] else logins) = [''acme'']"
    by (simp add: og)
  moreover have "concat (map (\<lambda>org. [''acme/app'', ''acme/legacy'', ''octocat/site''])
                    [''acme'']) = [''acme/app'', ''acme/legacy'', ''octocat/site'']"
    by simp
  ultimately have "fetchPRsFromOrgRepos orgSweep ''octocat'' (\<lambda>r. Some examplePRs)
       [] (\<lambda>org. [''acme/app'', ''acme/legacy'', ''octocat/site'']) []
     = concat (map (\<lambda>r. case Some examplePRs of None \<Rightarrow> [] | Some found \<Rightarrow> found)
         [''acme/app''])"
    using so by (simp only: f if_False)
  then have b: "fetchPRsFromOrgRepos orgSweep ''octocat'' (\<lambda>r. Some examplePRs)
       [] (\<lambda>org. [''acme/app'', ''acme/legacy'', ''octocat/site'']) [] = examplePRs"
    by simp
  from a1 a2 [unfolded c] a3 r s o n b show ?thesis by simp
qed

subsection \<open>\<^verbatim>\<open>GitHubClient.request\<close>\<close>

lemma request_retry:
  assumes "isRateLimited (server retryCount)" "retryCount < 3"
  shows "request server clock endpoint retryCount =
    (Fetch (if startsWith endpoint ''http'' then endpoint else GITHUB_API_BASE @ endpoint)
       # Sleep (rateLimitWaitTime (headers (server retryCount) ''X-RateLimit-Reset'')
                  (clock retryCount))
       # fst (request server clock endpoint (retryCount + 1)),
     snd (request server clock endpoint (retryCount + 1)))"
  using assms
  by (subst request.simps) (simp add: Let_def case_prod_beta)

lemma request_give_up:
  assumes "isRateLimited (server retryCount)" "retryCount \<ge> 3"
  shows "request server clock endpoint retryCount =
    ([Fetch (if startsWith endpoint ''http'' then endpoint else GITHUB_API_BASE @ endpoint)],
     Thrown (GitHubClientError ''Rate limit exceeded. Please wait and try again later.''
               (status (server retryCount)) endpoint))"
  using assms
  by (subst request.simps) (simp add: Let_def)

lemma request_success:
  assumes "\<not> isRateLimited (server retryCount)"
    "200 \<le> status (server retryCount)" "status (server retryCount) \<le> 299"
  shows "request server clock endpoint retryCount =
    ([Fetch (if startsWith endpoint ''http'' then endpoint else GITHUB_API_BASE @ endpoint)],
     Returned (payload (server retryCount), headers (server retryCount) ''Link''))"
  using assms
  by (subst request.simps) (simp add: Let_def)

lemma rateLimitWaitTime_absent: "rateLimitWaitTime None now = Some 60000"
  by (simp add: rateLimitWaitTime_def)

lemma rateLimitWaitTime_present:
  assumes "h \<noteq> []" "parseInt10 h = Some seconds"
  shows "rateLimitWaitTime (Some h) now
    = Some (min (max (seconds * 1000 - now + 1000) 1000) 300000)"
  using assms by (simp add: rateLimitWaitTime_def Let_def)

lemma isRateLimited_iff:
  "isRateLimited response \<longleftrightarrow>
     status response = 429
     \<or> (status response = 403 \<and> headers response ''X-RateLimit-Remaining'' = Some ''0'')"
  by (auto simp: isRateLimited_def)

lemma request_exhausted:
  assumes "\<forall>n \<le> 3. isRateLimited (server n)"
  shows "request server clock endpoint 0 =
    (let url = (if startsWith endpoint ''http'' then endpoint else GITHUB_API_BASE @ endpoint);
         wait = (\<lambda>n. Sleep (rateLimitWaitTime (headers (server n) ''X-RateLimit-Reset'') (clock n)))
     in ([Fetch url, wait 0, Fetch url, wait 1, Fetch url, wait 2, Fetch url],
         Thrown (GitHubClientError ''Rate limit exceeded. Please wait and try again later.''
                   (status (server 3)) endpoint)))"
proof -
  have l: "isRateLimited (server 0)" "isRateLimited (server 1)" "isRateLimited (server 2)"
    "isRateLimited (server 3)"
    using assms by simp_all
  have r3: "request server clock endpoint 3 =
    ([Fetch (if startsWith endpoint ''http'' then endpoint else GITHUB_API_BASE @ endpoint)],
     Thrown (GitHubClientError ''Rate limit exceeded. Please wait and try again later.''
               (status (server 3)) endpoint))"
    using l(4) by (simp add: request_give_up)
  have r2: "request server clock endpoint 2 = (Fetch (if startsWith endpoint ''http'' then endpoint else GITHUB_API_BASE @ endpoint)
       # Sleep (rateLimitWaitTime (headers (server 2) ''X-RateLimit-Reset'') (clock 2))
       # fst (request server clock endpoint 3), snd (request server clock endpoint 3))"
    using request_retry [of server 2 clock endpoint] l(3) by simp
  have r1: "request server clock endpoint 1 = (Fetch (if startsWith endpoint ''http'' then endpoint else GITHUB_API_BASE @ endpoint)
       # Sleep (rateLimitWaitTime (headers (server 1) ''X-RateLimit-Reset'') (clock 1))
       # fst (request server clock endpoint 2), snd (request server clock endpoint 2))"
    using request_retry [of server 1 clock endpoint] l(2) by (simp add: numeral_2_eq_2)
  have r0: "request server clock endpoint 0 = (Fetch (if startsWith endpoint ''http'' then endpoint else GITHUB_API_BASE @ endpoint)
       # Sleep (rateLimitWaitTime (headers (server 0) ''X-RateLimit-Reset'') (clock 0))
       # fst (request server clock endpoint 1), snd (request server clock endpoint 1))"
    using request_retry [of server 0 clock endpoint] l(1) by simp
  show ?thesis unfolding r0 r1 r2 r3 Let_def by simp
qed

text \<open>
  C5: a response is throttled when its status is 429, or is 403 with the remaining quota
  \<^verbatim>\<open>0\<close>. The wait is 60000 ms without a reset header and, with a reset header of
  \<open>seconds\<close>, \<open>max (seconds * 1000 - now + 1000) 1000\<close> capped at 300000 ms. On a
  throttled response with fewer than 3 retries consumed the client waits that long and
  sends the same request again with one more retry consumed; on a throttled response
  with 3 retries consumed it throws the rate-limit error and neither waits nor sends. A
  server that throttles four times in a row is asked four times, with three waits, and
  the call ends in the rate-limit error.
\<close>

theorem request_rate_limit_backoff:
  "(isRateLimited response \<longleftrightarrow>
      status response = 429
      \<or> (status response = 403 \<and> headers response ''X-RateLimit-Remaining'' = Some ''0''))
   \<and> rateLimitWaitTime None now = Some 60000
   \<and> (h \<noteq> [] \<and> parseInt10 h = Some seconds \<longrightarrow>
        rateLimitWaitTime (Some h) now
          = Some (min (max (seconds * 1000 - now + 1000) 1000) 300000))
   \<and> (isRateLimited (server retryCount) \<and> retryCount < 3 \<longrightarrow>
        request server clock endpoint retryCount =
          (Fetch (if startsWith endpoint ''http'' then endpoint else GITHUB_API_BASE @ endpoint)
             # Sleep (rateLimitWaitTime (headers (server retryCount) ''X-RateLimit-Reset'')
                        (clock retryCount))
             # fst (request server clock endpoint (retryCount + 1)),
           snd (request server clock endpoint (retryCount + 1))))
   \<and> (isRateLimited (server retryCount) \<and> retryCount \<ge> 3 \<longrightarrow>
        request server clock endpoint retryCount =
          ([Fetch (if startsWith endpoint ''http'' then endpoint else GITHUB_API_BASE @ endpoint)],
           Thrown (GitHubClientError ''Rate limit exceeded. Please wait and try again later.''
                     (status (server retryCount)) endpoint)))
   \<and> ((\<forall>n \<le> 3. isRateLimited (server n)) \<longrightarrow>
        request server clock endpoint 0 =
          (let url = (if startsWith endpoint ''http'' then endpoint
                      else GITHUB_API_BASE @ endpoint);
               wait = (\<lambda>n. Sleep (rateLimitWaitTime
                                    (headers (server n) ''X-RateLimit-Reset'') (clock n)))
           in ([Fetch url, wait 0, Fetch url, wait 1, Fetch url, wait 2, Fetch url],
               Thrown (GitHubClientError ''Rate limit exceeded. Please wait and try again later.''
                         (status (server 3)) endpoint))))"
  using isRateLimited_iff [of response] rateLimitWaitTime_absent [of now]
    rateLimitWaitTime_present [of h seconds now]
    request_retry [of server retryCount clock endpoint]
    request_give_up [of server retryCount clock endpoint]
    request_exhausted [of server clock endpoint]
  by blast

theorem request_rate_limit_backoff_witness:
  "isRateLimited (always429 0) \<and> isRateLimited (always429 1)
   \<and> isRateLimited (always429 2) \<and> isRateLimited (always429 3)
   \<and> ''1700000100'' \<noteq> [] \<and> parseInt10 ''1700000100'' = Some 1700000100
   \<and> rateLimitWaitTime (Some ''1700000100'') 1700000000000 = Some 101000
   \<and> request always429 (\<lambda>n. 1700000000000) ''/user/orgs'' 0 =
       ([Fetch ''https://api.github.com/user/orgs'', Sleep (Some 101000),
         Fetch ''https://api.github.com/user/orgs'', Sleep (Some 101000),
         Fetch ''https://api.github.com/user/orgs'', Sleep (Some 101000),
         Fetch ''https://api.github.com/user/orgs''],
        Thrown (GitHubClientError ''Rate limit exceeded. Please wait and try again later.''
                  429 ''/user/orgs''))"
proof -
  have l: "\<forall>n \<le> 3. isRateLimited (always429 n)"
    by (simp add: isRateLimited_def always429_def)
  have p: "parseInt10 ''1700000100'' = Some 1700000100" by code_simp
  have h: "headers (always429 n) ''X-RateLimit-Reset'' = Some ''1700000100''" for n
    by (simp add: always429_def)
  have s: "status (always429 n) = 429" for n
    by (simp add: always429_def)
  have u: "(if startsWith ''/user/orgs'' ''http'' then ''/user/orgs''
            else GITHUB_API_BASE @ ''/user/orgs'') = ''https://api.github.com/user/orgs''"
    by (simp add: startsWith_def GITHUB_API_BASE_def)
  have w: "rateLimitWaitTime (Some ''1700000100'') 1700000000000 = Some 101000"
    using request_rate_limit_backoff
      [of "always429 0" 1700000000000 "''1700000100''" 1700000100 always429 0
        "\<lambda>n. 1700000000000" "''/user/orgs''"] p
    by simp
  from request_rate_limit_backoff
    [of "always429 0" 1700000000000 "''1700000100''" 1700000100 always429 0
      "\<lambda>n. 1700000000000" "''/user/orgs''"] l
  have "request always429 (\<lambda>n. 1700000000000) ''/user/orgs'' 0 =
      (let url = (if startsWith ''/user/orgs'' ''http'' then ''/user/orgs''
                  else GITHUB_API_BASE @ ''/user/orgs'');
           wait = (\<lambda>n. Sleep (rateLimitWaitTime
                    (headers (always429 n) ''X-RateLimit-Reset'') 1700000000000))
       in ([Fetch url, wait 0, Fetch url, wait 1, Fetch url, wait 2, Fetch url],
           Thrown (GitHubClientError ''Rate limit exceeded. Please wait and try again later.''
                     (status (always429 3)) ''/user/orgs'')))"
    by blast
  then have "request always429 (\<lambda>n. 1700000000000) ''/user/orgs'' 0 =
       ([Fetch ''https://api.github.com/user/orgs'', Sleep (Some 101000),
         Fetch ''https://api.github.com/user/orgs'', Sleep (Some 101000),
         Fetch ''https://api.github.com/user/orgs'', Sleep (Some 101000),
         Fetch ''https://api.github.com/user/orgs''],
        Thrown (GitHubClientError ''Rate limit exceeded. Please wait and try again later.''
                  429 ''/user/orgs''))"
    unfolding Let_def h s u w .
  with l p w show ?thesis by simp
qed

subsection \<open>\<^verbatim>\<open>Cache.get\<close>\<close>

text \<open>An entry that was written is read back until it is more than 24 hours old.\<close>

lemma Cache_get_after_set:
  "Cache_get host True (Cache_set host True True files T prefix params d) now prefix params
   = (if now - T > CACHE_TTL_MS then None else Some d)"
  by (simp add: Cache_get_def Cache_set_def Let_def)

text \<open>
  C6: when the file of a key holds an entry whose version is not the current one, or
  whose timestamp is more than 24 hours before the time of the read, \<^verbatim>\<open>Cache.get\<close>
  returns \<^verbatim>\<open>null\<close>; an entry written at \<open>T\<close> and read 25 hours later is absent.
\<close>

theorem Cache_get_stale_or_expired:
  "(files (getCachePath host (generateKey host prefix params)) = Some (Json entry)
      \<and> (version entry \<noteq> CACHE_VERSION \<or> now - timestamp entry > CACHE_TTL_MS)
      \<longrightarrow> Cache_get host enabled files now prefix params = None)
   \<and> Cache_get host True (Cache_set host True True files T prefix params d)
        (T + 25 * 60 * 60 * 1000) prefix params = None
   \<and> CACHE_TTL_MS = 24 * 60 * 60 * 1000"
proof -
  have "Cache_get host enabled files now prefix params = None"
    if "files (getCachePath host (generateKey host prefix params)) = Some (Json entry)
      \<and> (version entry \<noteq> CACHE_VERSION \<or> now - timestamp entry > CACHE_TTL_MS)"
    using that by (auto simp: Cache_get_def Let_def)
  moreover have "Cache_get host True (Cache_set host True True files T prefix params d)
        (T + 25 * 60 * 60 * 1000) prefix params = None"
    by (simp add: Cache_get_after_set CACHE_TTL_MS_def)
  ultimately show ?thesis by (simp add: CACHE_TTL_MS_def)
qed

theorem Cache_get_stale_or_expired_witness:
  "[getCachePath exampleHost (generateKey exampleHost ''prs'' searchParams)
      \<mapsto> Json \<lparr>data = examplePRs, timestamp = 1706659200000, version = 1\<rparr>]
     (getCachePath exampleHost (generateKey exampleHost ''prs'' searchParams))
     = Some (Json \<lparr>data = examplePRs, timestamp = 1706659200000, version = 1\<rparr>)
   \<and> 1706749200000 - timestamp \<lparr>data = examplePRs, timestamp = 1706659200000, version = 1\<rparr>
       > CACHE_TTL_MS
   \<and> Cache_get exampleHost True
        [getCachePath exampleHost (generateKey exampleHost ''prs'' searchParams)
           \<mapsto> Json \<lparr>data = examplePRs, timestamp = 1706659200000, version = 1\<rparr>]
        1706749200000 ''prs'' searchParams = None"
proof -
  let ?e = "\<lparr>data = examplePRs, timestamp = 1706659200000, version = 1\<rparr>"
  let ?p = "getCachePath exampleHost (generateKey exampleHost ''prs'' searchParams)"
  have f: "[?p \<mapsto> Json ?e] ?p = Some (Json ?e)" by simp
  have x: "1706749200000 - timestamp ?e > CACHE_TTL_MS" by (simp add: CACHE_TTL_MS_def)
  from Cache_get_stale_or_expired [of "[?p \<mapsto> Json ?e]" exampleHost "''prs''" searchParams
      ?e 1706749200000 True] f x
  show ?thesis by blast
qed

end
